theory Spec2Isabelle
  imports Main
begin

section \<open>The environment of the client\<close>

text \<open>
  The class \<open>Auth0ManagementClient\<close> (src/src/types.ts, second part, lines 439-594) talks
  to three things outside itself: the wall clock (\<open>Date.now()\<close>), the timer behind
  \<open>this.sleep\<close> (\<open>setTimeout\<close>) and the network (\<open>fetch\<close>). All three are made explicit
  in the state that every method takes and returns.

  Numbers are modelled as mathematical integers: instants and durations are in
  milliseconds, as \<open>Date.now()\<close> gives them.
\<close>

text \<open>A value that is thrown, or that a promise rejects with.\<close>

datatype thrown =
    Error (message: string)   \<comment> \<open>an instance of \<open>Error\<close>, with its message\<close>
  | NonError                  \<comment> \<open>any other thrown value\<close>

text \<open>\<open>TokenResponse\<close> of src/src/types.ts (the optional \<open>scope\<close> is never read).\<close>

record TokenResponse =
  access_token :: string
  token_type :: string
  expires_in :: int

text \<open>
  What the client reads of a \<open>Response\<close>: the status, the \<open>retry-after\<close> header
  (\<open>None\<close> when \<open>headers.get\<close> gives \<open>null\<close>), the result of \<open>text()\<close> and the result
  of \<open>json()\<close>, which either throws or gives a value.
\<close>

record 'j response =
  status :: nat
  retry_after :: "string option"
  body_text :: string
  json :: "thrown + 'j"

text \<open>\<open>response.ok\<close>: the status is in the range 200-299.\<close>

definition ok :: "'j response \<Rightarrow> bool" where
  "ok r = (200 \<le> status r \<and> status r \<le> 299)"

text \<open>
  The events a run leaves behind, in the order they happen. \<open>Suspended\<close> is logged at
  every \<open>await\<close>, with the credential pair that any other task would see while this call
  is suspended there.
\<close>

datatype event =
    Admitted int                                \<comment> \<open>\<open>requestTimestamps.push(Date.now())\<close>\<close>
  | Slept int                                   \<comment> \<open>\<open>this.sleep(ms)\<close>\<close>
  | TokenFetch                                  \<comment> \<open>\<open>fetch\<close> of \<open>/oauth/token\<close>\<close>
  | Authenticated string                        \<comment> \<open>\<open>const token = await this.getAccessToken()\<close>\<close>
  | ApiFetch string string "string option" string
      \<comment> \<open>\<open>fetch(url, ...)\<close>: method, path, serialised body, bearer token\<close>
  | Suspended "string option" int               \<comment> \<open>an \<open>await\<close>\<close>

text \<open>
  The fields of the class that the pipeline reads and writes, then the environment:
  \<^item> \<open>clock\<close> is the last instant the clock showed and \<open>ticks\<close> the time that will have
    passed at each later reading, so the clock never runs backwards;
  \<^item> \<open>token_endpoint\<close> and \<open>api_endpoint\<close> are what the two kinds of \<open>fetch\<close> will settle
    with, in order (\<open>Inl\<close> is a rejection);
  \<^item> \<open>trace\<close> is the log of events.
  The type parameter is the type \<open>T\<close> of the values the API serves.
\<close>

record 'a client =
  accessToken :: "string option"
  tokenExpiry :: int
  rateLimitPerSecond :: int
  requestTimestamps :: "int list"
  clock :: int
  ticks :: "nat list"
  token_endpoint :: "(thrown + TokenResponse response) list"
  api_endpoint :: "(thrown + 'a response) list"
  trace :: "event list"

definition DEFAULT_RETRY_DELAY :: int where
  "DEFAULT_RETRY_DELAY = 1000"

definition MAX_RETRIES :: int where
  "MAX_RETRIES = 3"

definition DEFAULT_RATE_LIMIT :: int where
  "DEFAULT_RATE_LIMIT = 8"

definition log :: "event \<Rightarrow> 'a client \<Rightarrow> 'a client" where
  "log e s = s\<lparr>trace := trace s @ [e]\<rparr>"

text \<open>\<open>Date.now()\<close>: the clock moves on by the next tick (by nothing once they run out).\<close>

definition Date_now :: "'a client \<Rightarrow> int \<times> 'a client" where
  "Date_now s =
     (case ticks s of
        [] \<Rightarrow> (clock s, s)
      | d # ds \<Rightarrow> (clock s + int d, s\<lparr>clock := clock s + int d, ticks := ds\<rparr>))"

text \<open>
  \<open>this.sleep(ms)\<close> is \<open>setTimeout(resolve, ms)\<close>: the timer fires no earlier than \<open>ms\<close>
  milliseconds later when \<open>ms\<close> is a delay the timer accepts (1 to 2^31 - 1) and without
  a guaranteed delay otherwise. Any lateness is part of the next tick.
\<close>

definition sleep :: "int \<Rightarrow> 'a client \<Rightarrow> 'a client" where
  "sleep ms s =
     log (Slept ms) (s\<lparr>clock := clock s + (if 0 < ms \<and> ms \<le> 2147483647 then ms else 0)\<rparr>)"

definition await :: "'r \<times> 'a client \<Rightarrow> 'r \<times> 'a client" where
  "await p = (fst p, log (Suspended (accessToken (snd p)) (tokenExpiry (snd p))) (snd p))"

definition await_void :: "'a client \<Rightarrow> 'a client" where
  "await_void s = log (Suspended (accessToken s) (tokenExpiry s)) s"

text \<open>The \<open>fetch\<close> of the token endpoint; an exhausted script is a transport failure.\<close>

definition fetch_token :: "'a client \<Rightarrow> (thrown + TokenResponse response) \<times> 'a client" where
  "fetch_token s =
     (case token_endpoint s of
        [] \<Rightarrow> (Inl (Error ''fetch failed''), log TokenFetch s)
      | r # rest \<Rightarrow> (r, log TokenFetch (s\<lparr>token_endpoint := rest\<rparr>)))"

definition fetch_api ::
  "string \<Rightarrow> string \<Rightarrow> string option \<Rightarrow> string \<Rightarrow> 'a client \<Rightarrow> (thrown + 'a response) \<times> 'a client" where
  "fetch_api method path body token s =
     (case api_endpoint s of
        [] \<Rightarrow> (Inl (Error ''fetch failed''), log (ApiFetch method path body token) s)
      | r # rest \<Rightarrow> (r, log (ApiFetch method path body token) (s\<lparr>api_endpoint := rest\<rparr>)))"

section \<open>Rendering and reading numbers\<close>

definition digit_char :: "nat \<Rightarrow> char" where
  "digit_char d = ''0123456789'' ! d"

text \<open>The decimal digits of a number, as a template literal renders \<open>response.status\<close>.\<close>

fun string_of_nat :: "nat \<Rightarrow> string" where
  "string_of_nat n =
     (if n < 10 then [digit_char n] else string_of_nat (n div 10) @ [digit_char (n mod 10)])"

declare string_of_nat.simps [simp del]

definition string_of_int :: "int \<Rightarrow> string" where
  "string_of_int i = (if i < 0 then CHR ''-'' # string_of_nat (nat (- i)) else string_of_nat (nat i))"

text \<open>
  The white space that \<open>parseInt\<close> skips, among the characters a header value can hold:
  tab, line feed, vertical tab, form feed, carriage return, space, no-break space.
\<close>

definition is_space :: "char \<Rightarrow> bool" where
  "is_space c = (c \<in> set [CHR 0x09, CHR 0x0A, CHR 0x0B, CHR 0x0C, CHR 0x0D, CHR 0x20, CHR 0xA0])"

definition digit_val :: "char \<Rightarrow> nat option" where
  "digit_val c = map_of (zip ''0123456789'' [0 ..< 10]) c"

text \<open>The value of the longest prefix of decimal digits, and whether there was one.\<close>

fun read_digits :: "string \<Rightarrow> nat option \<Rightarrow> nat option" where
  "read_digits [] acc = acc"
| "read_digits (c # cs) acc =
     (case digit_val c of
        None \<Rightarrow> acc
      | Some d \<Rightarrow> read_digits cs (Some (10 * (case acc of None \<Rightarrow> 0 | Some a \<Rightarrow> a) + d)))"

text \<open>
  \<open>parseInt(str, 10)\<close>: skip white space, read an optional sign, read decimal digits and
  ignore what follows; \<open>None\<close> is \<open>NaN\<close>.
\<close>

definition parseInt :: "string \<Rightarrow> int option" where
  "parseInt str =
     (let s1 = dropWhile is_space str;
          sign = (case s1 of c # _ \<Rightarrow> if c = CHR ''-'' then - 1 else 1 | [] \<Rightarrow> (1::int));
          s2 = (case s1 of c # r \<Rightarrow> if c = CHR ''-'' \<or> c = CHR ''+'' then r else s1 | [] \<Rightarrow> [])
      in map_option (\<lambda>n. sign * int n) (read_digits s2 None))"

section \<open>Token management\<close>

text \<open>A string-or-null used as a condition: \<open>null\<close> and the empty string are falsy.\<close>

definition truthy :: "string option \<Rightarrow> bool" where
  "truthy v = (case v of None \<Rightarrow> False | Some t \<Rightarrow> t \<noteq> [])"

text \<open>
  The condition of line 467, \<open>this.accessToken && Date.now() < this.tokenExpiry - 300000\<close>:
  the clock is read only when the token is truthy.
\<close>

definition cache_valid :: "'a client \<Rightarrow> bool \<times> 'a client" where
  "cache_valid s =
     (if truthy (accessToken s)
      then (let (now, s1) = Date_now s in (now < tokenExpiry s1 - 300000, s1))
      else (False, s))"

definition token_text :: "string option \<Rightarrow> string" where
  "token_text v = (case v of None \<Rightarrow> [] | Some t \<Rightarrow> t)"

text \<open>\<open>getAccessToken\<close>, lines 465-495.\<close>

definition getAccessToken :: "'a client \<Rightarrow> (thrown + string) \<times> 'a client" where
  "getAccessToken s =
     (case cache_valid s of
        (True, s1) \<Rightarrow> (Inr (token_text (accessToken s1)), s1)
      | (False, s1) \<Rightarrow>
          (case await (fetch_token s1) of
             (Inl e, s2) \<Rightarrow> (Inl e, s2)
           | (Inr response, s2) \<Rightarrow>
               if \<not> ok response then
                 (case await (body_text response, s2) of
                    (error, s3) \<Rightarrow>
                      (Inl (Error (''Failed to get access token: '' @ string_of_nat (status response)
                                   @ '' '' @ error)), s3))
               else
                 (case await (json response, s2) of
                    (Inl e, s3) \<Rightarrow> (Inl e, s3)
                  | (Inr data, s3) \<Rightarrow>
                      (let s4 = s3\<lparr>accessToken := Some (access_token data)\<rparr>;
                           (now, s5) = Date_now s4;
                           s6 = s5\<lparr>tokenExpiry := now + expires_in data * 1000\<rparr>
                       in (Inr (token_text (accessToken s6)), s6)))))"

section \<open>The rate governor\<close>

text \<open>
  The second purge, line 589: the callback of \<open>filter\<close> reads the clock afresh for every
  element.
\<close>

fun filter_fresh :: "int list \<Rightarrow> 'a client \<Rightarrow> int list \<times> 'a client" where
  "filter_fresh [] s = ([], s)"
| "filter_fresh (t # ts) s =
     (let (now, s1) = Date_now s;
          (kept, s2) = filter_fresh ts s1
      in (if t > now - 1000 then t # kept else kept, s2))"

text \<open>
  \<open>waitForRateLimit\<close>, lines 574-594. On an empty window \<open>requestTimestamps[0]\<close> is
  \<open>undefined\<close>, the wait time is \<open>NaN\<close> and \<open>NaN > 0\<close> is false: no sleep.
\<close>

definition waitForRateLimit :: "'a client \<Rightarrow> 'a client" where
  "waitForRateLimit s =
     (let (now, s1) = Date_now s;
          windowStart = now - 1000;
          s2 = s1\<lparr>requestTimestamps := filter (\<lambda>t. t > windowStart) (requestTimestamps s1)\<rparr>;
          s3 = (if int (length (requestTimestamps s2)) \<ge> rateLimitPerSecond s2 then
                  (let s2a = (case requestTimestamps s2 of
                                [] \<Rightarrow> s2
                              | oldestTimestamp # _ \<Rightarrow>
                                  (let waitTime = oldestTimestamp - windowStart + 10
                                   in if waitTime > 0 then await_void (sleep waitTime s2) else s2));
                       (kept, s2b) = filter_fresh (requestTimestamps s2a) s2a
                   in s2b\<lparr>requestTimestamps := kept\<rparr>)
                else s2);
          (t, s4) = Date_now s3
      in log (Admitted t) (s4\<lparr>requestTimestamps := requestTimestamps s4 @ [t]\<rparr>))"

section \<open>The request pipeline\<close>

text \<open>
  The argument of \<open>this.sleep\<close> at lines 549-550:
  \<open>parseInt(response.headers.get('retry-after') || '1', 10) * 1000 || DEFAULT_RETRY_DELAY\<close>.
  An absent or empty header reads as \<open>'1'\<close>; \<open>NaN * 1000\<close> is \<open>NaN\<close>; \<open>NaN\<close> and
  zero are the falsy numbers.
\<close>

definition retry_wait :: "string option \<Rightarrow> int" where
  "retry_wait header =
     (let retryAfter = parseInt (case header of None \<Rightarrow> ''1'' | Some h \<Rightarrow> if h = [] then ''1'' else h)
      in case retryAfter of
           None \<Rightarrow> DEFAULT_RETRY_DELAY
         | Some n \<Rightarrow> if n * 1000 = 0 then DEFAULT_RETRY_DELAY else n * 1000)"

text \<open>
  \<open>request\<close>, lines 526-565. The URL is \<open>https://${this.domain}${path}\<close> with a fixed
  domain, so the path stands for it; \<open>body\<close> is the serialised body, \<open>None\<close> when the
  caller gives none. The result \<open>Inr None\<close> is \<open>undefined\<close>.
\<close>

function request ::
  "string \<Rightarrow> string \<Rightarrow> string option \<Rightarrow> int \<Rightarrow> 'a client \<Rightarrow> (thrown + 'a option) \<times> 'a client" where
  "request method path body retries s =
     (let s1 = await_void (waitForRateLimit s) in
      case await (getAccessToken s1) of
        (Inl e, s2) \<Rightarrow> (Inl e, s2)
      | (Inr token, s2) \<Rightarrow>
          (case await (fetch_api method path body token (log (Authenticated token) s2)) of
             (Inl e, s3) \<Rightarrow> (Inl e, s3)
           | (Inr response, s3) \<Rightarrow>
               if status response = 429 \<and> retries > 0 then
                 request method path body (retries - 1)
                   (await_void (sleep (retry_wait (retry_after response)) s3))
               else if \<not> ok response then
                 (case await (body_text response, s3) of
                    (error, s4) \<Rightarrow>
                      (Inl (Error (''Auth0 API error: '' @ string_of_nat (status response)
                                   @ '' '' @ error)), s4))
               else if status response = 204 then (Inr None, s3)
               else (case json response of
                       Inl e \<Rightarrow> (Inl e, s3)
                     | Inr v \<Rightarrow> (Inr (Some v), s3))))"
  by pat_completeness auto
termination
  by (relation "measure (\<lambda>(method, path, body, retries, s). nat retries)") auto

declare request.simps [simp del]

section \<open>Applications and the connection test\<close>

record list_options =
  page :: "int option"
  per_page :: "int option"

text \<open>\<open>URLSearchParams.toString()\<close> for keys and values that need no escaping.\<close>

fun params_toString :: "(string \<times> string) list \<Rightarrow> string" where
  "params_toString [] = []"
| "params_toString [(k, v)] = k @ ''='' @ v"
| "params_toString ((k, v) # kvs) = k @ ''='' @ v @ ''&'' @ params_toString kvs"

text \<open>\<open>listApplications\<close>, lines 601-608; \<open>request\<close> is called with its default budget.\<close>

definition listApplications ::
  "list_options option \<Rightarrow> 'a client \<Rightarrow> (thrown + 'a option) \<times> 'a client" where
  "listApplications options s =
     (let params =
            (case options of
               None \<Rightarrow> []
             | Some opts \<Rightarrow>
                 (case page opts of None \<Rightarrow> [] | Some p \<Rightarrow> [(''page'', string_of_int p)])
                 @ (case per_page opts of None \<Rightarrow> [] | Some p \<Rightarrow> [(''per_page'', string_of_int p)]));
          query = (if params_toString params \<noteq> [] then ''?'' @ params_toString params else [])
      in request ''GET'' (''/api/v2/clients'' @ query) None MAX_RETRIES s)"

record connection_result =
  success :: bool
  error :: "string option"

text \<open>The \<open>catch\<close> block of \<open>testConnection\<close>, lines 506-511.\<close>

definition connection_failure :: "thrown \<Rightarrow> connection_result" where
  "connection_failure e =
     \<lparr>success = False,
      error = Some (case e of Error m \<Rightarrow> m | NonError \<Rightarrow> ''Unknown error'')\<rparr>"

text \<open>
  \<open>testConnection\<close>, lines 500-512. The result is \<open>Inl\<close> if the method itself throws.
\<close>

definition testConnection :: "'a client \<Rightarrow> (thrown + connection_result) \<times> 'a client" where
  "testConnection s =
     (case await (getAccessToken s) of
        (Inl e, s1) \<Rightarrow> (Inr (connection_failure e), s1)
      | (Inr _, s1) \<Rightarrow>
          (case await (listApplications None s1) of
             (Inl e, s2) \<Rightarrow> (Inr (connection_failure e), s2)
           | (Inr _, s2) \<Rightarrow> (Inr \<lparr>success = True, error = None\<rparr>, s2)))"

text \<open>
  The constructor, lines 452-458, in a given environment. The quota is
  \<open>config.rateLimitPerSecond ?? DEFAULT_RATE_LIMIT\<close>: every number that is given is kept,
  zero included.
\<close>

definition new_client ::
  "int option \<Rightarrow> int \<Rightarrow> nat list \<Rightarrow> (thrown + TokenResponse response) list
   \<Rightarrow> (thrown + 'a response) list \<Rightarrow> 'a client" where
  "new_client limit t0 ds tok api =
     \<lparr>accessToken = None, tokenExpiry = 0,
      rateLimitPerSecond = (case limit of None \<Rightarrow> DEFAULT_RATE_LIMIT | Some n \<Rightarrow> n),
      requestTimestamps = [],
      clock = t0, ticks = ds, token_endpoint = tok, api_endpoint = api, trace = []\<rparr>"

text \<open>The admission timestamps of a run, oldest first.\<close>

fun admissions :: "event list \<Rightarrow> int list" where
  "admissions [] = []"
| "admissions (Admitted t # es) = t # admissions es"
| "admissions (_ # es) = admissions es"

text \<open>The number of token acquisitions and of API calls in a run.\<close>

definition token_fetches :: "event list \<Rightarrow> nat" where
  "token_fetches es = length (filter (\<lambda>e. e = TokenFetch) es)"

fun is_ApiFetch :: "event \<Rightarrow> bool" where
  "is_ApiFetch (ApiFetch _ _ _ _) = True"
| "is_ApiFetch _ = False"

definition api_fetches :: "event list \<Rightarrow> nat" where
  "api_fetches es = length (filter is_ApiFetch es)"

section \<open>Notions used in the statements and proofs\<close>

text \<open>
  The three stages of \<open>waitForRateLimit\<close>: the first purge (lines 575-579), the check
  with its wait and second purge (lines 582-590), and the recording (line 593).
\<close>

definition purged :: "'a client \<Rightarrow> 'a client" where
  "purged s =
     (let (now, s1) = Date_now s
      in s1\<lparr>requestTimestamps := filter (\<lambda>t. t > now - 1000) (requestTimestamps s1)\<rparr>)"

definition gate :: "'a client \<Rightarrow> 'a client" where
  "gate s2 =
     (if int (length (requestTimestamps s2)) \<ge> rateLimitPerSecond s2 then
        (let s2a = (case requestTimestamps s2 of
                      [] \<Rightarrow> s2
                    | oldestTimestamp # _ \<Rightarrow>
                        (let waitTime = oldestTimestamp - (clock s2 - 1000) + 10
                         in if waitTime > 0 then await_void (sleep waitTime s2) else s2));
             (kept, s2b) = filter_fresh (requestTimestamps s2a) s2a
         in s2b\<lparr>requestTimestamps := kept\<rparr>)
      else s2)"

definition push :: "'a client \<Rightarrow> 'a client" where
  "push s3 =
     (let (t, s4) = Date_now s3
      in log (Admitted t) (s4\<lparr>requestTimestamps := requestTimestamps s4 @ [t]\<rparr>))"

text \<open>
  The number of admissions in the window of 1000 ms that ends at \<open>lo + 1000\<close>: the
  instants \<open>t\<close> with \<open>lo < t \<le> lo + 1000\<close>, the shape of window that the purge keeps.
\<close>

definition window_count :: "int \<Rightarrow> int list \<Rightarrow> int" where
  "window_count lo h = int (length (filter (\<lambda>t. lo < t \<and> t \<le> lo + 1000) h))"

text \<open>
  The invariant of the governor: no admission is in the future, the stored window agrees
  with the history on everything recent, and no window holds more than the quota.
\<close>

definition gov_inv :: "'a client \<Rightarrow> bool" where
  "gov_inv s =
     ((\<forall>t \<in> set (admissions (trace s)). t \<le> clock s) \<and>
      (\<forall>b. clock s - 1000 \<le> b \<longrightarrow>
           filter (\<lambda>t. b < t) (requestTimestamps s) = filter (\<lambda>t. b < t) (admissions (trace s))) \<and>
      (\<forall>lo. window_count lo (admissions (trace s)) \<le> rateLimitPerSecond s))"

text \<open>The stored window is in order and holds no instant of the future.\<close>

definition window_sorted :: "'a client \<Rightarrow> bool" where
  "window_sorted s =
     (sorted (requestTimestamps s) \<and> (\<forall>t \<in> set (requestTimestamps s). t \<le> clock s))"

text \<open>Steps that leave the governor alone: the clock may advance, nothing is admitted.\<close>

definition quiet :: "'a client \<Rightarrow> 'a client \<Rightarrow> bool" where
  "quiet s s' =
     (requestTimestamps s' = requestTimestamps s \<and> rateLimitPerSecond s' = rateLimitPerSecond s \<and>
      clock s \<le> clock s' \<and>
      (\<exists>evs. trace s' = trace s @ evs \<and> admissions evs = []))"

fun is_token_event :: "event \<Rightarrow> bool" where
  "is_token_event TokenFetch = True"
| "is_token_event (Suspended _ _) = True"
| "is_token_event _ = False"

fun is_wait_event :: "event \<Rightarrow> bool" where
  "is_wait_event (Slept _) = True"
| "is_wait_event (Suspended _ _) = True"
| "is_wait_event _ = False"

text \<open>The events of the pipeline's own steps: admission, authentication, sending.\<close>

fun is_pipeline_event :: "event \<Rightarrow> bool" where
  "is_pipeline_event (Admitted _) = True"
| "is_pipeline_event (Authenticated _) = True"
| "is_pipeline_event (ApiFetch _ _ _ _) = True"
| "is_pipeline_event _ = False"

definition pipeline_events :: "event list \<Rightarrow> event list" where
  "pipeline_events evs = filter is_pipeline_event evs"

text \<open>
  The order of the pipeline's steps in a call of \<open>request\<close>: every attempt is an
  admission, then the token, then the send with that token and the call's own method,
  path and body; only the last attempt may stop after its admission, when no token is
  obtained.
\<close>

fun pipeline_shape :: "string \<Rightarrow> string \<Rightarrow> string option \<Rightarrow> event list \<Rightarrow> bool" where
  "pipeline_shape m p b [Admitted t] = True"
| "pipeline_shape m p b [Admitted t, Authenticated tok, ApiFetch m' p' b' tok'] =
     (m' = m \<and> p' = p \<and> b' = b \<and> tok' = tok)"
| "pipeline_shape m p b (Admitted t # Authenticated tok # ApiFetch m' p' b' tok' # es) =
     (m' = m \<and> p' = p \<and> b' = b \<and> tok' = tok \<and> pipeline_shape m p b es)"
| "pipeline_shape m p b es = False"

text \<open>
  One attempt of \<open>request\<close> (lines 533-545), what follows a response that is not retried
  (lines 554-564) and the wait before a retry (line 550).
\<close>

definition admitted :: "'a client \<Rightarrow> 'a client" where
  "admitted s = await_void (waitForRateLimit s)"

definition attempt ::
  "string \<Rightarrow> string \<Rightarrow> string option \<Rightarrow> 'a client \<Rightarrow> (thrown + 'a response) \<times> 'a client" where
  "attempt method path body s =
     (let s1 = await_void (waitForRateLimit s) in
      case await (getAccessToken s1) of
        (Inl e, s2) \<Rightarrow> (Inl e, s2)
      | (Inr token, s2) \<Rightarrow> await (fetch_api method path body token (log (Authenticated token) s2)))"

definition settle :: "'a response \<Rightarrow> 'a client \<Rightarrow> (thrown + 'a option) \<times> 'a client" where
  "settle response s3 =
     (if \<not> ok response then
        (case await (body_text response, s3) of
           (err, s4) \<Rightarrow>
             (Inl (Error (''Auth0 API error: '' @ string_of_nat (status response) @ '' '' @ err)), s4))
      else if status response = 204 then (Inr None, s3)
      else (case json response of
              Inl e \<Rightarrow> (Inl e, s3)
            | Inr v \<Rightarrow> (Inr (Some v), s3)))"

definition backoff :: "'a response \<Rightarrow> 'a client \<Rightarrow> 'a client" where
  "backoff response s3 = await_void (sleep (retry_wait (retry_after response)) s3)"

text \<open>
  The states in which the attempts of a call of \<open>request\<close> leave the rate governor, in
  order: the attempt that starts in \<open>s\<close> runs \<open>waitForRateLimit\<close> on \<open>s\<close> (line 533), and
  a retry starts a new attempt, as in \<open>request\<close> itself (lines 548-552).
\<close>

function admission_states ::
  "string \<Rightarrow> string \<Rightarrow> string option \<Rightarrow> int \<Rightarrow> 'a client \<Rightarrow> 'a client list" where
  "admission_states m p b retries s =
     waitForRateLimit s #
     (case attempt m p b s of
        (Inl e, s3) \<Rightarrow> []
      | (Inr response, s3) \<Rightarrow>
          if status response = 429 \<and> retries > 0
          then admission_states m p b (retries - 1) (backoff response s3)
          else [])"
  by pat_completeness auto
termination
  by (relation "measure (\<lambda>(m, p, b, retries, s). nat retries)") auto

declare admission_states.simps [simp del]

text \<open>
  Between two states of a run, every admission logged in between is in the stored window,
  after the entries that were there, unless it is older than one second at the end.
\<close>

definition recorded :: "'a client \<Rightarrow> 'a client \<Rightarrow> bool" where
  "recorded s s' =
     (clock s \<le> clock s' \<and>
      (\<exists>evs. trace s' = trace s @ evs \<and>
         (\<forall>b. clock s' - 1000 \<le> b \<longrightarrow>
            filter (\<lambda>t. b < t) (requestTimestamps s')
              = filter (\<lambda>t. b < t) (requestTimestamps s @ admissions evs))))"

text \<open>The responses that the API served between two states of a run.\<close>

definition served :: "'a client \<Rightarrow> 'a client \<Rightarrow> (thrown + 'a response) list" where
  "served s s' = take (length (api_endpoint s) - length (api_endpoint s')) (api_endpoint s)"

text \<open>Calls made one after the other, each with the default retry budget.\<close>

datatype call =
    Admit
  | GetAccessToken
  | Request string string "string option"
  | ListApplications "list_options option"
  | TestConnection

fun perform :: "call \<Rightarrow> 'a client \<Rightarrow> 'a client" where
  "perform Admit s = waitForRateLimit s"
| "perform GetAccessToken s = snd (getAccessToken s)"
| "perform (Request method path body) s = snd (request method path body MAX_RETRIES s)"
| "perform (ListApplications options) s = snd (listApplications options s)"
| "perform TestConnection s = snd (testConnection s)"

fun run :: "call list \<Rightarrow> 'a client \<Rightarrow> 'a client" where
  "run [] s = s"
| "run (c # cs) s = run cs (perform c s)"

fun getAccessToken_times :: "nat \<Rightarrow> 'a client \<Rightarrow> 'a client" where
  "getAccessToken_times 0 s = s"
| "getAccessToken_times (Suc n) s = getAccessToken_times n (snd (getAccessToken s))"

text \<open>Environments in which every API response is a 429, or every token request is granted.\<close>

definition all_429 :: "(thrown + 'a response) list \<Rightarrow> bool" where
  "all_429 rs = list_all (\<lambda>x. case x of Inl _ \<Rightarrow> False | Inr r \<Rightarrow> status r = 429) rs"

definition all_granted :: "(thrown + TokenResponse response) list \<Rightarrow> bool" where
  "all_granted rs =
     list_all (\<lambda>x. case x of Inl _ \<Rightarrow> False
                   | Inr r \<Rightarrow> ok r \<and> (case json r of Inl _ \<Rightarrow> False | Inr _ \<Rightarrow> True)) rs"

text \<open>Responses used in the examples.\<close>

definition granted :: "string \<Rightarrow> int \<Rightarrow> thrown + TokenResponse response" where
  "granted tok lifetime =
     Inr \<lparr>status = 200, retry_after = None, body_text = [],
          json = Inr \<lparr>access_token = tok, token_type = ''Bearer'', expires_in = lifetime\<rparr>\<rparr>"

definition denied :: "thrown + TokenResponse response" where
  "denied = Inr \<lparr>status = 401, retry_after = None, body_text = ''Unauthorized'',
                 json = Inl (Error ''Unexpected token'')\<rparr>"

definition too_many :: "string option \<Rightarrow> thrown + unit response" where
  "too_many h = Inr \<lparr>status = 429, retry_after = h, body_text = ''Too Many Requests'',
                     json = Inl (Error ''Unexpected token'')\<rparr>"

definition no_content :: "thrown + unit response" where
  "no_content = Inr \<lparr>status = 204, retry_after = None, body_text = [],
                     json = Inl (Error ''Unexpected end of JSON input'')\<rparr>"

definition served_ok :: "thrown + unit response" where
  "served_ok = Inr \<lparr>status = 200, retry_after = None, body_text = ''[]'', json = Inr ()\<rparr>"

definition fresh :: "int \<Rightarrow> nat list \<Rightarrow> (thrown + TokenResponse response) list
                     \<Rightarrow> (thrown + unit response) list \<Rightarrow> unit client" where
  "fresh limit ds tok api = new_client (Some limit) 0 ds tok api"

text \<open>Clients used in the examples.\<close>

definition cached_client :: "int \<Rightarrow> unit client" where
  "cached_client expiry =
     (fresh 8 [] [granted ''new'' 86400] [])\<lparr>accessToken := Some ''tok'', tokenExpiry := expiry\<rparr>"

definition empty_token_client :: "unit client" where
  "empty_token_client = snd (getAccessToken (fresh 8 [] [granted [] 86400, granted [] 86400] []))"

definition negative_retry_client :: "unit client" where
  "negative_retry_client = fresh 8 [] [granted ''tok'' 86400] [too_many (Some ''-5''), served_ok]"

definition retry_client :: "unit client" where
  "retry_client = fresh 8 [] [granted ''tok'' 86400] [too_many (Some ''2''), served_ok]"

definition delete_client :: "unit client" where
  "delete_client = fresh 8 [] [granted ''tok'' 86400] [too_many None, no_content]"

definition scenario_a :: "unit client" where
  "scenario_a = fresh 8 [] [granted ''tok'' 86400] [served_ok]"

definition scenario_b :: "unit client" where
  "scenario_b = fresh 8 [] [denied] [served_ok]"

definition forbidden :: "thrown + unit response" where
  "forbidden = Inr \<lparr>status = 403, retry_after = None, body_text = ''Insufficient scope'',
                    json = Inl (Error ''Unexpected token'')\<rparr>"

definition scenario_forbidden :: "unit client" where
  "scenario_forbidden = fresh 8 [] [granted ''tok'' 86400] [forbidden]"

definition scenario_reject :: "unit client" where
  "scenario_reject = fresh 8 [] [Inl NonError] [served_ok]"

definition exhausted_client :: "unit client" where
  "exhausted_client =
     fresh 8 [] [granted ''tok'' 86400, granted ''tok2'' 86400, granted ''tok3'' 86400,
                 granted ''tok4'' 86400]
       [too_many None, too_many (Some ''2''), too_many None, too_many None, served_ok]"

definition burst :: "call list" where
  "burst = [Admit, Admit, Request ''GET'' ''/api/v2/clients'' None, Admit, Admit]"

definition burst_client :: "unit client" where
  "burst_client = fresh 2 [1, 1, 1, 1] [granted ''tok'' 86400] [served_ok]"

definition queue_client :: "unit client" where
  "queue_client = run [Admit, Admit] (fresh 8 [3, 1, 4, 1, 5] [] [])"

section \<open>Basic facts\<close>

lemma Date_now_fields [simp]:
  "accessToken (snd (Date_now s)) = accessToken s"
  "tokenExpiry (snd (Date_now s)) = tokenExpiry s"
  "rateLimitPerSecond (snd (Date_now s)) = rateLimitPerSecond s"
  "requestTimestamps (snd (Date_now s)) = requestTimestamps s"
  "token_endpoint (snd (Date_now s)) = token_endpoint s"
  "api_endpoint (snd (Date_now s)) = api_endpoint s"
  "trace (snd (Date_now s)) = trace s"
  "clock (snd (Date_now s)) = fst (Date_now s)"
  by (simp_all add: Date_now_def split: list.splits)

lemma Date_now_mono: "clock s \<le> fst (Date_now s)"
  by (simp add: Date_now_def split: list.splits)

lemma waitForRateLimit_stages: "waitForRateLimit s = push (gate (purged s))"
  unfolding waitForRateLimit_def push_def gate_def purged_def Let_def split_beta
  by (simp split: list.splits)

lemma admissions_append [simp]: "admissions (xs @ ys) = admissions xs @ admissions ys"
  by (induction xs rule: admissions.induct) simp_all

lemma filter_fresh_frame:
  "accessToken (snd (filter_fresh ts s)) = accessToken s \<and>
   tokenExpiry (snd (filter_fresh ts s)) = tokenExpiry s \<and>
   rateLimitPerSecond (snd (filter_fresh ts s)) = rateLimitPerSecond s \<and>
   requestTimestamps (snd (filter_fresh ts s)) = requestTimestamps s \<and>
   token_endpoint (snd (filter_fresh ts s)) = token_endpoint s \<and>
   api_endpoint (snd (filter_fresh ts s)) = api_endpoint s \<and>
   trace (snd (filter_fresh ts s)) = trace s"
  by (induction ts arbitrary: s) (simp_all add: split_beta Let_def)

lemma filter_fresh_clock: "clock s \<le> clock (snd (filter_fresh ts s))"
proof (induction ts arbitrary: s)
  case Nil
  show ?case by simp
next
  case (Cons t ts)
  have "clock s \<le> clock (snd (Date_now s))" using Date_now_mono [of s] by simp
  also have "\<dots> \<le> clock (snd (filter_fresh ts (snd (Date_now s))))" by (rule Cons.IH)
  finally show ?case by (simp add: split_beta Let_def)
qed

lemma filter_fresh_recent:
  "clock (snd (filter_fresh ts s)) - 1000 \<le> b \<Longrightarrow>
   filter (\<lambda>t. b < t) (fst (filter_fresh ts s)) = filter (\<lambda>t. b < t) ts"
proof (induction ts arbitrary: s)
  case Nil
  show ?case by simp
next
  case (Cons t ts)
  let ?s1 = "snd (Date_now s)"
  have now: "fst (Date_now s) \<le> clock (snd (filter_fresh ts ?s1))"
    using filter_fresh_clock [of ?s1 ts] by simp
  have b: "clock (snd (filter_fresh ts ?s1)) - 1000 \<le> b"
    using Cons.prems by (simp add: split_beta Let_def)
  have IH: "filter (\<lambda>t. b < t) (fst (filter_fresh ts ?s1)) = filter (\<lambda>t. b < t) ts"
    using Cons.IH [OF b] .
  show ?case using IH now b by (simp add: split_beta Let_def)
qed

lemma filter_fresh_subset: "set (fst (filter_fresh ts s)) \<subseteq> set ts"
  by (induction ts arbitrary: s) (auto simp add: split_beta Let_def)

lemma filter_fresh_sorted: "sorted ts \<Longrightarrow> sorted (fst (filter_fresh ts s))"
proof (induction ts arbitrary: s)
  case Nil
  show ?case by simp
next
  case (Cons t ts)
  have "set (fst (filter_fresh ts (snd (Date_now s)))) \<subseteq> set ts" by (rule filter_fresh_subset)
  with Cons show ?case by (auto simp add: split_beta Let_def)
qed

lemma filter_filter_above:
  "(c::int) \<le> b \<Longrightarrow> filter (\<lambda>t. b < t) (filter (\<lambda>t. c < t) xs) = filter (\<lambda>t. b < t) xs"
  by (induction xs) auto

lemma filter_conj_above [simp]:
  "(c::int) \<le> b \<Longrightarrow> filter (\<lambda>t. c < t \<and> b < t) xs = filter (\<lambda>t. b < t) xs"
  by (rule filter_cong) auto

lemma length_filter_mono:
  "(\<And>x. x \<in> set xs \<Longrightarrow> P x \<Longrightarrow> Q x) \<Longrightarrow> length (filter P xs) \<le> length (filter Q xs)"
  by (induction xs) auto

lemma purged_fields:
  "accessToken (purged s) = accessToken s"
  "tokenExpiry (purged s) = tokenExpiry s"
  "rateLimitPerSecond (purged s) = rateLimitPerSecond s"
  "token_endpoint (purged s) = token_endpoint s"
  "api_endpoint (purged s) = api_endpoint s"
  "trace (purged s) = trace s"
  "clock (purged s) = fst (Date_now s)"
  "requestTimestamps (purged s) = filter (\<lambda>t. fst (Date_now s) - 1000 < t) (requestTimestamps s)"
  by (simp_all add: purged_def split_beta)

lemma purged_inv:
  assumes "gov_inv s"
  shows "gov_inv (purged s)"
    and "requestTimestamps (purged s)
         = filter (\<lambda>t. clock (purged s) - 1000 < t) (admissions (trace (purged s)))"
proof -
  let ?h = "admissions (trace s)"
  let ?now = "fst (Date_now s)"
  have mono: "clock s \<le> ?now" by (rule Date_now_mono)
  have A: "\<forall>t \<in> set ?h. t \<le> clock s"
    and B: "\<And>b. clock s - 1000 \<le> b \<Longrightarrow> filter (\<lambda>t. b < t) (requestTimestamps s) = filter (\<lambda>t. b < t) ?h"
    and C: "\<And>lo. int (length (filter (\<lambda>t. lo < t \<and> t \<le> lo + 1000) ?h)) \<le> rateLimitPerSecond s"
    using assms by (simp_all add: gov_inv_def window_count_def)
  have B': "filter (\<lambda>t. b < t) (requestTimestamps (purged s)) = filter (\<lambda>t. b < t) ?h"
    if "?now - 1000 \<le> b" for b
  proof -
    have "filter (\<lambda>t. b < t) (requestTimestamps (purged s)) = filter (\<lambda>t. b < t) (requestTimestamps s)"
      using that by (simp add: purged_fields filter_filter_above)
    also have "\<dots> = filter (\<lambda>t. b < t) ?h" using that mono by (intro B) simp
    finally show ?thesis .
  qed
  show "gov_inv (purged s)"
    unfolding gov_inv_def window_count_def
  proof (intro conjI allI impI ballI)
    fix t assume "t \<in> set (admissions (trace (purged s)))"
    then show "t \<le> clock (purged s)" using A mono by (auto simp add: purged_fields)
  next
    fix b assume "clock (purged s) - 1000 \<le> b"
    then show "filter (\<lambda>t. b < t) (requestTimestamps (purged s))
               = filter (\<lambda>t. b < t) (admissions (trace (purged s)))"
      using B' [of b] by (simp add: purged_fields)
  next
    fix lo
    show "int (length (filter (\<lambda>t. lo < t \<and> t \<le> lo + 1000) (admissions (trace (purged s)))))
          \<le> rateLimitPerSecond (purged s)"
      using C [of lo] by (simp add: purged_fields)
  qed
  show "requestTimestamps (purged s)
         = filter (\<lambda>t. clock (purged s) - 1000 < t) (admissions (trace (purged s)))"
    using B [of "?now - 1000"] mono by (simp add: purged_fields)
qed

lemma push_fields:
  "accessToken (push s) = accessToken s"
  "tokenExpiry (push s) = tokenExpiry s"
  "rateLimitPerSecond (push s) = rateLimitPerSecond s"
  "token_endpoint (push s) = token_endpoint s"
  "api_endpoint (push s) = api_endpoint s"
  "trace (push s) = trace s @ [Admitted (fst (Date_now s))]"
  "clock (push s) = fst (Date_now s)"
  "requestTimestamps (push s) = requestTimestamps s @ [fst (Date_now s)]"
  by (simp_all add: push_def split_beta log_def)

lemma push_inv:
  assumes inv: "gov_inv s"
    and room: "int (length (filter (\<lambda>t. clock s - 1000 < t) (admissions (trace s)))) < rateLimitPerSecond s"
  shows "gov_inv (push s)"
proof -
  let ?h = "admissions (trace s)"
  let ?t = "fst (Date_now s)"
  have mono: "clock s \<le> ?t" by (rule Date_now_mono)
  have A: "\<forall>t \<in> set ?h. t \<le> clock s"
    and B: "\<And>b. clock s - 1000 \<le> b \<Longrightarrow> filter (\<lambda>t. b < t) (requestTimestamps s) = filter (\<lambda>t. b < t) ?h"
    and C: "\<And>lo. int (length (filter (\<lambda>t. lo < t \<and> t \<le> lo + 1000) ?h)) \<le> rateLimitPerSecond s"
    using inv by (simp_all add: gov_inv_def window_count_def)
  show ?thesis
    unfolding gov_inv_def window_count_def
  proof (intro conjI allI impI ballI)
    fix t assume "t \<in> set (admissions (trace (push s)))"
    then show "t \<le> clock (push s)" using A mono by (auto simp add: push_fields)
  next
    fix b assume "clock (push s) - 1000 \<le> b"
    then have "clock s - 1000 \<le> b" using mono by (simp add: push_fields)
    from B [OF this]
    show "filter (\<lambda>t. b < t) (requestTimestamps (push s))
               = filter (\<lambda>t. b < t) (admissions (trace (push s)))"
      by (simp add: push_fields)
  next
    fix lo
    show "int (length (filter (\<lambda>t. lo < t \<and> t \<le> lo + 1000) (admissions (trace (push s)))))
          \<le> rateLimitPerSecond (push s)"
    proof (cases "lo < ?t \<and> ?t \<le> lo + 1000")
      case False
      then show ?thesis using C [of lo] by (auto simp add: push_fields)
    next
      case True
      have "length (filter (\<lambda>t. lo < t \<and> t \<le> lo + 1000) ?h)
            \<le> length (filter (\<lambda>t. clock s - 1000 < t) ?h)"
        using True mono by (intro length_filter_mono) simp
      then show ?thesis using room True by (simp add: push_fields)
    qed
  qed
qed

declare filter_fresh.simps [simp del]

lemma gate_pass: "int (length (requestTimestamps s)) < rateLimitPerSecond s \<Longrightarrow> gate s = s"
  by (simp add: gate_def)

lemma gate_wait:
  assumes full: "rateLimitPerSecond s \<le> int (length (requestTimestamps s))"
    and ts: "requestTimestamps s = oldest # rest"
    and lo: "clock s - 1000 < oldest" and hi: "oldest \<le> clock s"
  defines "s2a \<equiv> await_void (sleep (oldest - (clock s - 1000) + 10) s)"
  shows "gate s = (snd (filter_fresh (oldest # rest) s2a))\<lparr>requestTimestamps := fst (filter_fresh (oldest # rest) s2a)\<rparr>"
    and "clock s2a = oldest + 1010"
    and "trace s2a = trace s @ [Slept (oldest - (clock s - 1000) + 10), Suspended (accessToken s) (tokenExpiry s)]"
    and "rateLimitPerSecond s2a = rateLimitPerSecond s"
proof -
  have w: "0 < oldest - (clock s - 1000) + 10" "oldest - (clock s - 1000) + 10 \<le> 2147483647"
    using lo hi by simp_all
  have rts: "requestTimestamps s2a = oldest # rest"
    by (simp add: s2a_def await_void_def sleep_def log_def ts)
  show "gate s = (snd (filter_fresh (oldest # rest) s2a))\<lparr>requestTimestamps := fst (filter_fresh (oldest # rest) s2a)\<rparr>"
    using full w(1) rts unfolding gate_def Let_def split_beta ts s2a_def by simp
  show "clock s2a = oldest + 1010"
    using w by (simp add: s2a_def await_void_def sleep_def log_def)
  show "trace s2a = trace s @ [Slept (oldest - (clock s - 1000) + 10), Suspended (accessToken s) (tokenExpiry s)]"
    by (simp add: s2a_def await_void_def sleep_def log_def)
  show "rateLimitPerSecond s2a = rateLimitPerSecond s"
    by (simp add: s2a_def await_void_def sleep_def log_def)
qed

lemma gate_inv:
  assumes inv: "gov_inv s"
    and win: "requestTimestamps s = filter (\<lambda>t. clock s - 1000 < t) (admissions (trace s))"
    and pos: "1 \<le> rateLimitPerSecond s"
  shows "gov_inv (gate s)"
    and "int (length (filter (\<lambda>t. clock (gate s) - 1000 < t) (admissions (trace (gate s)))))
         < rateLimitPerSecond (gate s)"
proof -
  let ?h = "admissions (trace s)"
  let ?L = "rateLimitPerSecond s"
  have A: "\<forall>t \<in> set ?h. t \<le> clock s"
    and B: "\<And>b. clock s - 1000 \<le> b \<Longrightarrow> filter (\<lambda>t. b < t) (requestTimestamps s) = filter (\<lambda>t. b < t) ?h"
    and C: "\<And>lo. int (length (filter (\<lambda>t. lo < t \<and> t \<le> lo + 1000) ?h)) \<le> ?L"
    using inv by (simp_all add: gov_inv_def window_count_def)
  have "gov_inv (gate s) \<and>
        int (length (filter (\<lambda>t. clock (gate s) - 1000 < t) (admissions (trace (gate s)))))
         < rateLimitPerSecond (gate s)"
  proof (cases "int (length (requestTimestamps s)) < ?L")
    case True
    then show ?thesis using inv win by (simp add: gate_pass)
  next
    case False
    then have full: "?L \<le> int (length (requestTimestamps s))" by simp
    with pos obtain oldest rest where ts: "requestTimestamps s = oldest # rest"
      by (cases "requestTimestamps s") auto
    have "oldest \<in> set (requestTimestamps s)" by (simp add: ts)
    then have "oldest \<in> set (filter (\<lambda>t. clock s - 1000 < t) ?h)" by (simp only: win [symmetric])
    then have lo: "clock s - 1000 < oldest" and hi: "oldest \<le> clock s" using A by auto
    define s2a where "s2a = await_void (sleep (oldest - (clock s - 1000) + 10) s)"
    let ?ff = "filter_fresh (oldest # rest) s2a"
    note gw = gate_wait [OF full ts lo hi, folded s2a_def]
    have g: "gate s = (snd ?ff)\<lparr>requestTimestamps := fst ?ff\<rparr>" by (rule gw(1))
    have fr: "trace (snd ?ff) = trace s2a" "rateLimitPerSecond (snd ?ff) = rateLimitPerSecond s2a"
      using filter_fresh_frame [of "oldest # rest" s2a] by simp_all
    have adm: "admissions (trace (gate s)) = ?h" by (simp add: g fr gw(3))
    have lim: "rateLimitPerSecond (gate s) = ?L" by (simp add: g fr gw(4))
    have ck: "oldest + 1010 \<le> clock (gate s)"
      using filter_fresh_clock [of s2a "oldest # rest"] by (simp add: g gw(2))
    have ck2: "clock s \<le> clock (gate s)" using ck lo by simp
    have kept: "filter (\<lambda>t. b < t) (requestTimestamps (gate s)) = filter (\<lambda>t. b < t) (oldest # rest)"
      if "clock (gate s) - 1000 \<le> b" for b
      using filter_fresh_recent [of "oldest # rest" s2a b] that by (simp add: g)
    have B3: "filter (\<lambda>t. b < t) (requestTimestamps (gate s)) = filter (\<lambda>t. b < t) ?h"
      if "clock (gate s) - 1000 \<le> b" for b
    proof -
      have "clock s - 1000 \<le> b" using that ck2 by simp
      from B [OF this] kept [OF that] show ?thesis by (simp add: ts)
    qed
    have inv3: "gov_inv (gate s)"
      unfolding gov_inv_def window_count_def adm lim
    proof (intro conjI allI impI ballI)
      fix t assume "t \<in> set ?h"
      then show "t \<le> clock (gate s)" using A ck2 by fastforce
    next
      fix b assume "clock (gate s) - 1000 \<le> b"
      then show "filter (\<lambda>t. b < t) (requestTimestamps (gate s)) = filter (\<lambda>t. b < t) ?h"
        by (rule B3)
    next
      fix lo
      show "int (length (filter (\<lambda>t. lo < t \<and> t \<le> lo + 1000) ?h)) \<le> ?L" by (rule C)
    qed
    have "filter (\<lambda>t. clock s - 1000 < t) ?h = filter (\<lambda>t. clock s - 1000 < t \<and> t \<le> clock s - 1000 + 1000) ?h"
      using A by (intro filter_cong) auto
    then have "int (length (requestTimestamps s)) \<le> ?L"
      using C [of "clock s - 1000"] win by simp
    then have rest: "int (length rest) < ?L" by (simp add: ts)
    have "filter (\<lambda>t. clock (gate s) - 1000 < t) ?h
          = filter (\<lambda>t. clock (gate s) - 1000 < t) (oldest # rest)"
      using B [of "clock (gate s) - 1000"] ck2 by (simp add: ts)
    also have "\<dots> = filter (\<lambda>t. clock (gate s) - 1000 < t) rest" using ck by simp
    finally have "length (filter (\<lambda>t. clock (gate s) - 1000 < t) ?h) \<le> length rest" by simp
    with rest have "int (length (filter (\<lambda>t. clock (gate s) - 1000 < t) ?h)) < ?L" by simp
    with inv3 show ?thesis by (simp add: adm lim)
  qed
  then show "gov_inv (gate s)"
    and "int (length (filter (\<lambda>t. clock (gate s) - 1000 < t) (admissions (trace (gate s)))))
         < rateLimitPerSecond (gate s)" by simp_all
qed

lemma waitForRateLimit_inv:
  assumes "gov_inv s" and "1 \<le> rateLimitPerSecond s"
  shows "gov_inv (waitForRateLimit s)"
proof -
  have 1: "gov_inv (purged s)" using assms(1) by (rule purged_inv(1))
  have 2: "requestTimestamps (purged s)
         = filter (\<lambda>t. clock (purged s) - 1000 < t) (admissions (trace (purged s)))"
    using assms(1) by (rule purged_inv(2))
  have 3: "1 \<le> rateLimitPerSecond (purged s)" using assms(2) by (simp add: purged_fields)
  show ?thesis
    unfolding waitForRateLimit_stages
    by (rule push_inv [OF gate_inv(1) [OF 1 2 3] gate_inv(2) [OF 1 2 3]])
qed

lemma quiet_refl [simp]: "quiet s s"
  by (simp add: quiet_def)

lemma quiet_trans: "quiet s s' \<Longrightarrow> quiet s' s'' \<Longrightarrow> quiet s s''"
  by (auto simp add: quiet_def)

lemma quiet_Date_now: "quiet s (snd (Date_now s))"
  using Date_now_mono [of s] by (simp add: quiet_def)

lemma quiet_log: "admissions [e] = [] \<Longrightarrow> quiet s (log e s)"
  by (simp add: quiet_def log_def)

lemma quiet_await_void: "quiet s (await_void s)"
  by (simp add: await_void_def quiet_log)

lemma quiet_await: "quiet s (snd (await (r, s)))"
  by (simp add: await_def quiet_log)

lemma quiet_sleep: "quiet s (sleep ms s)"
  by (simp add: sleep_def quiet_def log_def)

lemma quiet_fetch_token: "quiet s (snd (fetch_token s))"
  by (simp add: fetch_token_def quiet_def log_def split: list.splits)

lemma quiet_fetch_api: "quiet s (snd (fetch_api m p b tok s))"
  by (simp add: fetch_api_def quiet_def log_def split: list.splits)

lemma quiet_set_token:
  "quiet s (s\<lparr>accessToken := a\<rparr>)" "quiet s (s\<lparr>tokenExpiry := x\<rparr>)"
  by (simp_all add: quiet_def)

lemma Date_now_ge: "x \<le> clock s \<Longrightarrow> x \<le> fst (Date_now s)"
  using Date_now_mono [of s] by simp

lemma getAccessToken_frame:
  "requestTimestamps (snd (getAccessToken s)) = requestTimestamps s"
  "rateLimitPerSecond (snd (getAccessToken s)) = rateLimitPerSecond s"
  "api_endpoint (snd (getAccessToken s)) = api_endpoint s"
  by (simp_all add: getAccessToken_def cache_valid_def await_def fetch_token_def log_def Let_def
      split_beta split: list.splits sum.splits bool.splits)

lemma getAccessToken_clock: "clock s \<le> clock (snd (getAccessToken s))"
  by (simp add: getAccessToken_def cache_valid_def await_def fetch_token_def log_def Let_def
      split_beta Date_now_ge split: list.splits sum.splits bool.splits)

lemma getAccessToken_trace:
  "\<exists>evs. trace (snd (getAccessToken s)) = trace s @ evs \<and> list_all is_token_event evs"
  by (simp add: getAccessToken_def cache_valid_def await_def fetch_token_def log_def Let_def
      split_beta split: list.splits sum.splits bool.splits)

lemma gate_frame:
  "accessToken (gate s) = accessToken s"
  "tokenExpiry (gate s) = tokenExpiry s"
  "rateLimitPerSecond (gate s) = rateLimitPerSecond s"
  "token_endpoint (gate s) = token_endpoint s"
  "api_endpoint (gate s) = api_endpoint s"
  by (simp_all add: gate_def Let_def split_beta filter_fresh_frame await_void_def sleep_def log_def
      split: list.splits)

lemma gate_trace: "\<exists>evs. trace (gate s) = trace s @ evs \<and> list_all is_wait_event evs"
  by (simp add: gate_def Let_def split_beta filter_fresh_frame await_void_def sleep_def log_def
      split: list.splits)

lemma gate_clock: "clock s \<le> clock (gate s)"
proof -
  have "clock x \<le> clock (snd (filter_fresh ts x))" for x :: "'a client" and ts
    by (rule filter_fresh_clock)
  moreover have "clock s \<le> clock (await_void (sleep w s))" for w
    by (simp add: await_void_def sleep_def log_def)
  ultimately show ?thesis
    by (auto simp add: gate_def Let_def split_beta split: list.splits intro: order_trans)
qed

lemma gate_window_cases:
  fixes s :: "'a client"
  shows "requestTimestamps (gate s) = requestTimestamps s \<or>
   (\<exists>x :: 'a client. requestTimestamps (gate s) = fst (filter_fresh (requestTimestamps s) x))"
proof (cases "rateLimitPerSecond s \<le> int (length (requestTimestamps s))")
  case False
  then show ?thesis by (simp add: gate_def)
next
  case True
  have w: "requestTimestamps (await_void (sleep w s)) = requestTimestamps s" for w
    by (simp add: await_void_def sleep_def log_def)
  show ?thesis
  proof (cases "requestTimestamps s")
    case Nil
    with True show ?thesis by (simp add: gate_def Let_def split_beta filter_fresh.simps(1))
  next
    case (Cons oldest rest)
    show ?thesis
    proof (cases "0 < oldest - (clock s - 1000) + 10")
      case w0: True
      have "requestTimestamps (gate s)
            = fst (filter_fresh (requestTimestamps s) (await_void (sleep (oldest - (clock s - 1000) + 10) s)))"
        using True w0 w [of "oldest - (clock s - 1000) + 10"]
        unfolding gate_def Let_def split_beta by (simp add: Cons)
      then show ?thesis by blast
    next
      case w0: False
      have "requestTimestamps (gate s) = fst (filter_fresh (requestTimestamps s) s)"
        using True w0 unfolding gate_def Let_def split_beta by (simp add: Cons)
      then show ?thesis by blast
    qed
  qed
qed

lemma gate_window:
  "set (requestTimestamps (gate s)) \<subseteq> set (requestTimestamps s)"
  "sorted (requestTimestamps s) \<Longrightarrow> sorted (requestTimestamps (gate s))"
  using gate_window_cases [of s] filter_fresh_subset filter_fresh_sorted
  by (metis subset_refl, metis)

lemma waitForRateLimit_frame:
  "accessToken (waitForRateLimit s) = accessToken s"
  "tokenExpiry (waitForRateLimit s) = tokenExpiry s"
  "rateLimitPerSecond (waitForRateLimit s) = rateLimitPerSecond s"
  "token_endpoint (waitForRateLimit s) = token_endpoint s"
  "api_endpoint (waitForRateLimit s) = api_endpoint s"
  by (simp_all add: waitForRateLimit_stages push_fields gate_frame purged_fields)

lemma waitForRateLimit_trace:
  "\<exists>evs. trace (waitForRateLimit s) = trace s @ evs @ [Admitted (clock (waitForRateLimit s))]
         \<and> list_all is_wait_event evs"
  using gate_trace [of "purged s"]
  by (auto simp add: waitForRateLimit_stages push_fields purged_fields)

lemma waitForRateLimit_clock: "clock s \<le> clock (waitForRateLimit s)"
proof -
  have "clock s \<le> clock (purged s)" by (simp add: purged_fields Date_now_mono)
  also have "\<dots> \<le> clock (gate (purged s))" by (rule gate_clock)
  also have "\<dots> \<le> clock (push (gate (purged s)))" by (simp add: push_fields Date_now_mono)
  finally show ?thesis by (simp add: waitForRateLimit_stages)
qed

lemma waitForRateLimit_window:
  "requestTimestamps (waitForRateLimit s)
   = butlast (requestTimestamps (waitForRateLimit s)) @ [clock (waitForRateLimit s)]"
  "set (butlast (requestTimestamps (waitForRateLimit s))) \<subseteq> set (requestTimestamps s)"
  "sorted (requestTimestamps s) \<Longrightarrow> sorted (butlast (requestTimestamps (waitForRateLimit s)))"
proof -
  have eq: "requestTimestamps (waitForRateLimit s)
            = requestTimestamps (gate (purged s)) @ [clock (waitForRateLimit s)]"
    by (simp add: waitForRateLimit_stages push_fields)
  then have bl: "butlast (requestTimestamps (waitForRateLimit s)) = requestTimestamps (gate (purged s))"
    by simp
  show "requestTimestamps (waitForRateLimit s)
   = butlast (requestTimestamps (waitForRateLimit s)) @ [clock (waitForRateLimit s)]"
    using eq bl by simp
  show "set (butlast (requestTimestamps (waitForRateLimit s))) \<subseteq> set (requestTimestamps s)"
    unfolding bl using gate_window(1) [of "purged s"] by (auto simp add: purged_fields)
  show "sorted (requestTimestamps s) \<Longrightarrow> sorted (butlast (requestTimestamps (waitForRateLimit s)))"
    unfolding bl by (intro gate_window(2)) (simp add: purged_fields sorted_wrt_filter)
qed

lemma pipeline_events_append [simp]:
  "pipeline_events (xs @ ys) = pipeline_events xs @ pipeline_events ys"
  by (simp add: pipeline_events_def)

lemma api_fetches_append [simp]: "api_fetches (xs @ ys) = api_fetches xs + api_fetches ys"
  by (simp add: api_fetches_def)

lemma token_fetches_append [simp]: "token_fetches (xs @ ys) = token_fetches xs + token_fetches ys"
  by (simp add: token_fetches_def)

lemma wait_events_silent:
  assumes "list_all is_wait_event evs"
  shows "admissions evs = []" "pipeline_events evs = []" "api_fetches evs = 0" "token_fetches evs = 0"
  using assms
proof (induction evs)
  case Nil
  {
    case 1 show ?case by simp
  next
    case 2 show ?case by (simp add: pipeline_events_def)
  next
    case 3 show ?case by (simp add: api_fetches_def)
  next
    case 4 show ?case by (simp add: token_fetches_def)
  }
next
  case (Cons e evs)
  {
    case 1 then show ?case using Cons.IH(1) by (cases e) simp_all
  next
    case 2 then show ?case using Cons.IH(2) by (cases e) (simp_all add: pipeline_events_def)
  next
    case 3 then show ?case using Cons.IH(3) by (cases e) (simp_all add: api_fetches_def)
  next
    case 4 then show ?case using Cons.IH(4) by (cases e) (simp_all add: token_fetches_def)
  }
qed

lemma token_events_silent:
  assumes "list_all is_token_event evs"
  shows "admissions evs = []" "pipeline_events evs = []" "api_fetches evs = 0"
  using assms
proof (induction evs)
  case Nil
  {
    case 1 show ?case by simp
  next
    case 2 show ?case by (simp add: pipeline_events_def)
  next
    case 3 show ?case by (simp add: api_fetches_def)
  }
next
  case (Cons e evs)
  {
    case 1 then show ?case using Cons.IH(1) by (cases e) simp_all
  next
    case 2 then show ?case using Cons.IH(2) by (cases e) (simp_all add: pipeline_events_def)
  next
    case 3 then show ?case using Cons.IH(3) by (cases e) (simp_all add: api_fetches_def)
  }
qed

lemma quiet_getAccessToken: "quiet s (snd (getAccessToken s))"
  using getAccessToken_trace [of s] token_events_silent(1)
  by (auto simp add: quiet_def getAccessToken_frame getAccessToken_clock)

lemma quiet_backoff: "quiet s (backoff response s)"
  unfolding backoff_def by (rule quiet_trans [OF quiet_sleep quiet_await_void])

lemma quiet_settle: "quiet s (snd (settle response s))"
  by (simp add: settle_def await_def quiet_log split: sum.splits)

lemma quiet_inv: "quiet s s' \<Longrightarrow> gov_inv s \<Longrightarrow> gov_inv s'"
  unfolding quiet_def gov_inv_def window_count_def
  apply (elim conjE exE)
  apply (intro conjI)
    apply (simp, fastforce)
   apply (simp)
  apply simp
  done

lemma request_unfold:
  "request method path body retries s =
     (case attempt method path body s of
        (Inl e, s3) \<Rightarrow> (Inl e, s3)
      | (Inr response, s3) \<Rightarrow>
          if status response = 429 \<and> retries > 0
          then request method path body (retries - 1) (backoff response s3)
          else settle response s3)"
  by (subst request.simps)
     (simp add: attempt_def settle_def backoff_def Let_def split: prod.splits sum.splits)

lemma request_induct [case_names step]:
  fixes P :: "int \<Rightarrow> 'a client \<Rightarrow> bool"
  assumes "\<And>retries s.
             (\<And>response s3. attempt m p b s = (Inr response, s3) \<Longrightarrow>
                 status response = 429 \<Longrightarrow> retries > 0 \<Longrightarrow>
                 P (retries - 1) (backoff response s3)) \<Longrightarrow> P retries s"
  shows "P retries s"
proof (induction "nat retries" arbitrary: retries s)
  case 0
  show ?case by (rule assms) (use 0 in simp)
next
  case (Suc n)
  show ?case
  proof (rule assms)
    fix response s3
    assume "retries > 0"
    with Suc.hyps(2) have "n = nat (retries - 1)" by simp
    then show "P (retries - 1) (backoff response s3)" by (rule Suc.hyps(1))
  qed
qed

lemma admitted_trace:
  "\<exists>evs t. trace (admitted s) = trace s @ evs \<and> pipeline_events evs = [Admitted t] \<and>
           admissions evs = [t] \<and> api_fetches evs = 0 \<and> token_fetches evs = 0"
proof -
  obtain ev1 where 1: "trace (waitForRateLimit s) = trace s @ ev1 @ [Admitted (clock (waitForRateLimit s))]"
    and 2: "list_all is_wait_event ev1"
    using waitForRateLimit_trace [of s] by blast
  let ?evs = "ev1 @ [Admitted (clock (waitForRateLimit s)),
                     Suspended (accessToken (waitForRateLimit s)) (tokenExpiry (waitForRateLimit s))]"
  have "trace (admitted s) = trace s @ ?evs"
    by (simp add: admitted_def await_void_def log_def 1)
  moreover have "pipeline_events ?evs = [Admitted (clock (waitForRateLimit s))]"
    using wait_events_silent(2) [OF 2] by (simp add: pipeline_events_def)
  moreover have "admissions ?evs = [clock (waitForRateLimit s)]"
    using wait_events_silent(1) [OF 2] by simp
  moreover have "api_fetches ?evs = 0"
    using wait_events_silent(3) [OF 2] by (simp add: api_fetches_def)
  moreover have "token_fetches ?evs = 0"
    using wait_events_silent(4) [OF 2] by (simp add: token_fetches_def)
  ultimately show ?thesis by blast
qed

lemma attempt_auth_failed:
  assumes "fst (getAccessToken (admitted s)) = Inl e"
  shows "fst (attempt m p b s) = Inl e"
    and "\<exists>evs t. trace (snd (attempt m p b s)) = trace s @ evs \<and> pipeline_events evs = [Admitted t]
                 \<and> api_fetches evs = 0"
    and "api_endpoint (snd (attempt m p b s)) = api_endpoint s"
proof -
  let ?g = "getAccessToken (admitted s)"
  have eq: "attempt m p b s = (Inl e, snd (await ?g))"
    using assms by (simp add: attempt_def admitted_def Let_def await_def split: prod.splits)
  show "fst (attempt m p b s) = Inl e" by (simp add: eq)
  obtain ev1 t where 1: "trace (admitted s) = trace s @ ev1" "pipeline_events ev1 = [Admitted t]"
    "api_fetches ev1 = 0"
    using admitted_trace [of s] by blast
  obtain ev2 where 2: "trace (snd ?g) = trace (admitted s) @ ev2" "list_all is_token_event ev2"
    using getAccessToken_trace [of "admitted s"] by blast
  let ?evs = "ev1 @ ev2 @ [Suspended (accessToken (snd ?g)) (tokenExpiry (snd ?g))]"
  have "trace (snd (attempt m p b s)) = trace s @ ?evs"
    by (simp add: eq await_def log_def 1 2)
  moreover have "pipeline_events ?evs = [Admitted t]"
    using 1(2) token_events_silent(2) [OF 2(2)] by (simp add: pipeline_events_def)
  moreover have "api_fetches ?evs = 0"
    using 1(3) token_events_silent(3) [OF 2(2)] by (simp add: api_fetches_def)
  ultimately show "\<exists>evs t. trace (snd (attempt m p b s)) = trace s @ evs \<and> pipeline_events evs = [Admitted t]
                 \<and> api_fetches evs = 0" by blast
  show "api_endpoint (snd (attempt m p b s)) = api_endpoint s"
    by (simp add: eq await_def log_def getAccessToken_frame admitted_def await_void_def
        waitForRateLimit_frame)
qed

lemma attempt_sent:
  assumes "fst (getAccessToken (admitted s)) = Inr tok"
  shows "fst (attempt m p b s) = (case api_endpoint s of [] \<Rightarrow> Inl (Error ''fetch failed'') | r # _ \<Rightarrow> r)"
    and "\<exists>evs t. trace (snd (attempt m p b s)) = trace s @ evs \<and>
                 pipeline_events evs = [Admitted t, Authenticated tok, ApiFetch m p b tok] \<and>
                 api_fetches evs = 1"
    and "api_endpoint (snd (attempt m p b s)) = tl (api_endpoint s)"
proof -
  let ?g = "getAccessToken (admitted s)"
  let ?s2 = "snd (await ?g)"
  have eq: "attempt m p b s = await (fetch_api m p b tok (log (Authenticated tok) ?s2))"
    using assms by (simp add: attempt_def admitted_def Let_def await_def split: prod.splits)
  have api: "api_endpoint ?s2 = api_endpoint s"
    by (simp add: await_def log_def getAccessToken_frame admitted_def await_void_def
        waitForRateLimit_frame)
  show "fst (attempt m p b s) = (case api_endpoint s of [] \<Rightarrow> Inl (Error ''fetch failed'') | r # _ \<Rightarrow> r)"
    using api by (simp add: eq await_def fetch_api_def log_def split: list.splits)
  show "api_endpoint (snd (attempt m p b s)) = tl (api_endpoint s)"
    using api by (simp add: eq await_def fetch_api_def log_def split: list.splits)
  obtain ev1 t where 1: "trace (admitted s) = trace s @ ev1" "pipeline_events ev1 = [Admitted t]"
    "api_fetches ev1 = 0"
    using admitted_trace [of s] by blast
  obtain ev2 where 2: "trace (snd ?g) = trace (admitted s) @ ev2" "list_all is_token_event ev2"
    using getAccessToken_trace [of "admitted s"] by blast
  have tr2: "trace ?s2 = trace s @ ev1 @ ev2 @ [Suspended (accessToken (snd ?g)) (tokenExpiry (snd ?g))]"
    by (simp add: await_def log_def 1 2)
  obtain a x where tr3: "trace (snd (attempt m p b s))
        = trace ?s2 @ [Authenticated tok, ApiFetch m p b tok, Suspended a x]"
    by (simp add: eq await_def fetch_api_def log_def split: list.splits)
  let ?evs = "ev1 @ ev2 @ [Suspended (accessToken (snd ?g)) (tokenExpiry (snd ?g)),
                           Authenticated tok, ApiFetch m p b tok, Suspended a x]"
  have "trace (snd (attempt m p b s)) = trace s @ ?evs"
    by (simp add: tr3 tr2)
  moreover have "pipeline_events ?evs = [Admitted t, Authenticated tok, ApiFetch m p b tok]"
    using 1(2) token_events_silent(2) [OF 2(2)] by (simp add: pipeline_events_def)
  moreover have "api_fetches ?evs = 1"
    using 1(3) token_events_silent(3) [OF 2(2)] by (simp add: api_fetches_def)
  ultimately show "\<exists>evs t. trace (snd (attempt m p b s)) = trace s @ evs \<and>
                 pipeline_events evs = [Admitted t, Authenticated tok, ApiFetch m p b tok] \<and>
                 api_fetches evs = 1" by blast
qed

lemma settle_trace:
  "\<exists>evs. trace (snd (settle response s)) = trace s @ evs \<and> list_all is_wait_event evs"
  by (simp add: settle_def await_def log_def split: sum.splits)

lemma backoff_trace:
  "\<exists>evs. trace (backoff response s) = trace s @ evs \<and> list_all is_wait_event evs"
  by (simp add: backoff_def await_void_def sleep_def log_def)

lemma pipeline_shape_next:
  "pipeline_shape m p b es \<Longrightarrow>
   pipeline_shape m p b (Admitted t # Authenticated tok # ApiFetch m p b tok # es)"
  by (cases es) simp_all

lemma request_trace:
  "\<exists>evs. trace (snd (request m p b retries s)) = trace s @ evs \<and>
         pipeline_shape m p b (pipeline_events evs) \<and>
         api_fetches evs \<le> nat retries + 1"
proof (induction retries s rule: request_induct [where m = m and p = p and b = b])
  case (step retries s)
  show ?case
  proof (cases "fst (getAccessToken (admitted s))")
    case (Inl e)
    from attempt_auth_failed [OF Inl, of m p b]
    obtain evs t where a: "fst (attempt m p b s) = Inl e"
      "trace (snd (attempt m p b s)) = trace s @ evs" "pipeline_events evs = [Admitted t]"
      "api_fetches evs = 0" by blast
    have "request m p b retries s = (Inl e, snd (attempt m p b s))"
      using a(1) by (subst request_unfold, cases "attempt m p b s") simp
    with a show ?thesis by auto
  next
    case (Inr tok)
    from attempt_sent [OF Inr, of m p b]
    obtain evs t where a: "trace (snd (attempt m p b s)) = trace s @ evs"
      "pipeline_events evs = [Admitted t, Authenticated tok, ApiFetch m p b tok]"
      "api_fetches evs = 1" by blast
    obtain r0 s3 where att: "attempt m p b s = (r0, s3)" by (cases "attempt m p b s")
    show ?thesis
    proof (cases r0)
      case (Inl e)
      have "request m p b retries s = (Inl e, s3)"
        using att Inl by (subst request_unfold) simp
      with a att show ?thesis by auto
    next
      case r: (Inr response)
      show ?thesis
      proof (cases "status response = 429 \<and> retries > 0")
        case True
        have eq: "request m p b retries s = request m p b (retries - 1) (backoff response s3)"
          using att r True by (subst request_unfold) simp
        from step [of response s3] att r True
        obtain evs3 where ih:
          "trace (snd (request m p b (retries - 1) (backoff response s3))) = trace (backoff response s3) @ evs3"
          "pipeline_shape m p b (pipeline_events evs3)"
          "api_fetches evs3 \<le> nat (retries - 1) + 1" by auto
        obtain evs2 where bo: "trace (backoff response s3) = trace s3 @ evs2" "list_all is_wait_event evs2"
          using backoff_trace [of response s3] by blast
        let ?evs = "evs @ evs2 @ evs3"
        have "trace (snd (request m p b retries s)) = trace s @ ?evs"
          using a(1) att by (simp add: eq ih(1) bo(1))
        moreover have "pipeline_shape m p b (pipeline_events ?evs)"
          using a(2) wait_events_silent(2) [OF bo(2)] ih(2) by (simp add: pipeline_shape_next)
        moreover have "nat (retries - 1) + 1 = nat retries" using True by linarith
        then have "api_fetches ?evs \<le> nat retries + 1"
          using a(3) wait_events_silent(3) [OF bo(2)] ih(3) by simp
        ultimately show ?thesis by blast
      next
        case False
        have eq: "request m p b retries s = settle response s3"
          using att r False by (subst request_unfold) auto
        obtain evs2 where st: "trace (snd (settle response s3)) = trace s3 @ evs2" "list_all is_wait_event evs2"
          using settle_trace [of response s3] by blast
        let ?evs = "evs @ evs2"
        have "trace (snd (request m p b retries s)) = trace s @ ?evs"
          using a(1) att by (simp add: eq st(1))
        moreover have "pipeline_shape m p b (pipeline_events ?evs)"
          using a(2) wait_events_silent(2) [OF st(2)] by simp
        moreover have "api_fetches ?evs \<le> nat retries + 1"
          using a(3) wait_events_silent(3) [OF st(2)] by simp
        ultimately show ?thesis by blast
      qed
    qed
  qed
qed

lemma admitted_inv:
  assumes "gov_inv s" and "1 \<le> rateLimitPerSecond s"
  shows "gov_inv (admitted s)" and "rateLimitPerSecond (admitted s) = rateLimitPerSecond s"
  unfolding admitted_def
  using quiet_inv [OF quiet_await_void waitForRateLimit_inv [OF assms]]
  by (simp_all add: await_void_def log_def waitForRateLimit_frame)

lemma attempt_quiet: "quiet (admitted s) (snd (attempt m p b s))"
proof -
  let ?g = "getAccessToken (admitted s)"
  let ?s2 = "snd (await ?g)"
  have q1: "quiet (admitted s) (snd ?g)" by (rule quiet_getAccessToken)
  have q2: "quiet (snd ?g) ?s2" by (simp add: await_def quiet_log)
  have q12: "quiet (admitted s) ?s2" by (rule quiet_trans [OF q1 q2])
  show ?thesis
  proof (cases "fst ?g")
    case (Inl e)
    then have "attempt m p b s = (Inl e, ?s2)"
      by (simp add: attempt_def admitted_def Let_def await_def split: prod.splits)
    with q12 show ?thesis by simp
  next
    case (Inr tok)
    let ?s2b = "log (Authenticated tok) ?s2"
    let ?f = "fetch_api m p b tok ?s2b"
    from Inr have eq: "attempt m p b s = await ?f"
      by (simp add: attempt_def admitted_def Let_def await_def split: prod.splits)
    have q3: "quiet ?s2 ?s2b" by (simp add: quiet_log)
    have q4: "quiet ?s2b (snd ?f)" by (rule quiet_fetch_api)
    have q5: "quiet (snd ?f) (snd (await ?f))" by (simp add: await_def quiet_log)
    show ?thesis
      unfolding eq by (rule quiet_trans [OF q12 quiet_trans [OF q3 quiet_trans [OF q4 q5]]])
  qed
qed

lemma attempt_inv:
  assumes "gov_inv s" and "1 \<le> rateLimitPerSecond s"
  shows "gov_inv (snd (attempt m p b s))"
    and "rateLimitPerSecond (snd (attempt m p b s)) = rateLimitPerSecond s"
proof -
  note q = attempt_quiet [of s m p b]
  show "gov_inv (snd (attempt m p b s))"
    using quiet_inv [OF q admitted_inv(1) [OF assms]] .
  show "rateLimitPerSecond (snd (attempt m p b s)) = rateLimitPerSecond s"
    using q admitted_inv(2) [OF assms] by (simp add: quiet_def)
qed

lemma request_inv:
  "gov_inv s \<Longrightarrow> 1 \<le> rateLimitPerSecond s \<Longrightarrow>
   gov_inv (snd (request m p b retries s)) \<and>
   rateLimitPerSecond (snd (request m p b retries s)) = rateLimitPerSecond s"
proof (induction retries s rule: request_induct [where m = m and p = p and b = b])
  case (step retries s)
  obtain r0 s3 where att: "attempt m p b s = (r0, s3)" by (cases "attempt m p b s")
  have s3: "gov_inv s3" "rateLimitPerSecond s3 = rateLimitPerSecond s"
    using attempt_inv [OF step.prems, of m p b] att by simp_all
  show ?case
  proof (cases r0)
    case (Inl e)
    have "request m p b retries s = (Inl e, s3)"
      using att Inl by (subst request_unfold) simp
    with s3 show ?thesis by simp
  next
    case r: (Inr response)
    show ?thesis
    proof (cases "status response = 429 \<and> retries > 0")
      case True
      have eq: "request m p b retries s = request m p b (retries - 1) (backoff response s3)"
        using att r True by (subst request_unfold) simp
      have b: "gov_inv (backoff response s3)" "rateLimitPerSecond (backoff response s3) = rateLimitPerSecond s"
        using quiet_inv [OF quiet_backoff s3(1)] quiet_backoff [of s3 response] s3(2)
        by (simp_all add: quiet_def)
      from step.IH [of response s3] att r True b step.prems(2)
      show ?thesis by (simp add: eq)
    next
      case False
      have eq: "request m p b retries s = settle response s3"
        using att r False by (subst request_unfold) auto
      show ?thesis
        using quiet_inv [OF quiet_settle s3(1)] quiet_settle [of s3 response] s3(2)
        by (simp add: eq quiet_def)
    qed
  qed
qed

section \<open>The token cache\<close>

lemma getAccessToken_cached:
  assumes "truthy (accessToken s)" and "fst (Date_now s) < tokenExpiry s - 300000"
  shows "getAccessToken s = (Inr (token_text (accessToken s)), snd (Date_now s))"
  using assms by (simp add: getAccessToken_def cache_valid_def split_beta)

lemma getAccessToken_acquires:
  assumes "\<not> (truthy (accessToken s) \<and> fst (Date_now s) < tokenExpiry s - 300000)"
  shows "\<exists>evs. trace (snd (getAccessToken s)) = trace s @ TokenFetch # evs"
  using assms
  by (auto simp add: getAccessToken_def cache_valid_def split_beta await_def fetch_token_def log_def Let_def
      split: list.splits sum.splits)

lemma getAccessToken_times_cached:
  "truthy (accessToken s) \<Longrightarrow>
   (\<forall>k<n. fst (Date_now (getAccessToken_times k s)) < tokenExpiry s - 300000) \<Longrightarrow>
   trace (getAccessToken_times n s) = trace s \<and>
   token_endpoint (getAccessToken_times n s) = token_endpoint s \<and>
   accessToken (getAccessToken_times n s) = accessToken s \<and>
   tokenExpiry (getAccessToken_times n s) = tokenExpiry s"
proof (induction n arbitrary: s)
  case 0
  show ?case by simp
next
  case (Suc n)
  from Suc.prems(2) have now: "fst (Date_now s) < tokenExpiry s - 300000" by force
  have eq: "getAccessToken s = (Inr (token_text (accessToken s)), snd (Date_now s))"
    using Suc.prems(1) now by (rule getAccessToken_cached)
  let ?s1 = "snd (Date_now s)"
  have 1: "truthy (accessToken ?s1)" using Suc.prems(1) by simp
  have 2: "\<forall>k<n. fst (Date_now (getAccessToken_times k ?s1)) < tokenExpiry ?s1 - 300000"
  proof (intro allI impI)
    fix k assume "k < n"
    then have "Suc k < Suc n" by simp
    with Suc.prems(2) have "fst (Date_now (getAccessToken_times (Suc k) s)) < tokenExpiry s - 300000"
      by blast
    then show "fst (Date_now (getAccessToken_times k ?s1)) < tokenExpiry ?s1 - 300000"
      by (simp add: eq)
  qed
  from Suc.IH [OF 1 2] show ?case by (simp add: eq)
qed

lemma getAccessToken_rejected:
  assumes "\<not> (truthy (accessToken s) \<and> fst (Date_now s) < tokenExpiry s - 300000)"
    and "token_endpoint s = Inr response # rest" and "\<not> ok response"
  shows "fst (getAccessToken s)
         = Inl (Error (''Failed to get access token: '' @ string_of_nat (status response) @ '' ''
                       @ body_text response))"
    and "accessToken (snd (getAccessToken s)) = accessToken s"
    and "tokenExpiry (snd (getAccessToken s)) = tokenExpiry s"
  using assms
  by (auto simp add: getAccessToken_def cache_valid_def split_beta await_def fetch_token_def log_def Let_def)

lemma getAccessToken_granted:
  assumes "\<not> (truthy (accessToken s) \<and> fst (Date_now s) < tokenExpiry s - 300000)"
    and "token_endpoint s = Inr response # rest" and "ok response" and "json response = Inr data"
  shows "fst (getAccessToken s) = Inr (access_token data)"
    and "accessToken (snd (getAccessToken s)) = Some (access_token data)"
    and "tokenExpiry (snd (getAccessToken s)) = clock (snd (getAccessToken s)) + expires_in data * 1000"
    and "token_endpoint (snd (getAccessToken s)) = rest"
  using assms
  by (auto simp add: getAccessToken_def cache_valid_def split_beta await_def fetch_token_def log_def
      Let_def token_text_def)

lemma getAccessToken_snapshots:
  "\<exists>evs. trace (snd (getAccessToken s)) = trace s @ evs \<and>
         (\<forall>a x. Suspended a x \<in> set evs \<longrightarrow> a = accessToken s \<and> x = tokenExpiry s)"
  by (simp add: getAccessToken_def cache_valid_def await_def fetch_token_def log_def Let_def
      split_beta split: list.splits sum.splits bool.splits)

lemma getAccessToken_pair:
  "(accessToken (snd (getAccessToken s)) = accessToken s \<and>
    tokenExpiry (snd (getAccessToken s)) = tokenExpiry s) \<or>
   (\<exists>response rest data. token_endpoint s = Inr response # rest \<and> json response = Inr data \<and>
      fst (getAccessToken s) = Inr (access_token data) \<and>
      accessToken (snd (getAccessToken s)) = Some (access_token data) \<and>
      tokenExpiry (snd (getAccessToken s)) = clock (snd (getAccessToken s)) + expires_in data * 1000)"
  by (simp add: getAccessToken_def cache_valid_def await_def fetch_token_def log_def Let_def
      split_beta token_text_def split: list.splits sum.splits bool.splits)

text \<open>
  Claim C1, as amended. A call of \<open>getAccessToken\<close> returns the cached token, with no
  network call, exactly when the cached token is a non-empty string and the clock reads
  less than the cached expiry minus 300000 ms; in every other case (no token, an empty
  token, or a clock at or past that bound) it fetches a new token. So an expiry of
  now + 300000 + 1 is served from the cache and an expiry of now + 300000 - 1 is not, and
  once a non-empty token is cached, any number of further calls that each read the clock
  inside the margin fetch nothing.
\<close>

theorem getAccessToken_cache_policy:
  fixes s :: "'a client"
  shows
   "(truthy (accessToken s) \<and> fst (Date_now s) < tokenExpiry s - 300000 \<longrightarrow>
       fst (getAccessToken s) = Inr (token_text (accessToken s)) \<and>
       trace (snd (getAccessToken s)) = trace s \<and>
       token_endpoint (snd (getAccessToken s)) = token_endpoint s) \<and>
    (\<not> (truthy (accessToken s) \<and> fst (Date_now s) < tokenExpiry s - 300000) \<longrightarrow>
       (\<exists>evs. trace (snd (getAccessToken s)) = trace s @ TokenFetch # evs)) \<and>
    (truthy (accessToken s) \<and> tokenExpiry s = fst (Date_now s) + 300000 + 1 \<longrightarrow>
       trace (snd (getAccessToken s)) = trace s) \<and>
    (tokenExpiry s = fst (Date_now s) + 300000 - 1 \<longrightarrow>
       (\<exists>evs. trace (snd (getAccessToken s)) = trace s @ TokenFetch # evs)) \<and>
    (truthy (accessToken s) \<and>
     (\<forall>k<n. fst (Date_now (getAccessToken_times k s)) < tokenExpiry s - 300000) \<longrightarrow>
       token_fetches (trace (getAccessToken_times n s)) = token_fetches (trace s))"
proof (intro conjI impI)
  assume h: "truthy (accessToken s) \<and> fst (Date_now s) < tokenExpiry s - 300000"
  then have "getAccessToken s = (Inr (token_text (accessToken s)), snd (Date_now s))"
    by (simp add: getAccessToken_cached)
  then show "fst (getAccessToken s) = Inr (token_text (accessToken s))"
    and "trace (snd (getAccessToken s)) = trace s"
    and "token_endpoint (snd (getAccessToken s)) = token_endpoint s"
    by simp_all
next
  assume "\<not> (truthy (accessToken s) \<and> fst (Date_now s) < tokenExpiry s - 300000)"
  then show "\<exists>evs. trace (snd (getAccessToken s)) = trace s @ TokenFetch # evs"
    by (rule getAccessToken_acquires)
next
  assume "truthy (accessToken s) \<and> tokenExpiry s = fst (Date_now s) + 300000 + 1"
  then have "getAccessToken s = (Inr (token_text (accessToken s)), snd (Date_now s))"
    by (simp add: getAccessToken_cached)
  then show "trace (snd (getAccessToken s)) = trace s" by simp
next
  assume "tokenExpiry s = fst (Date_now s) + 300000 - 1"
  then have "\<not> (truthy (accessToken s) \<and> fst (Date_now s) < tokenExpiry s - 300000)" by simp
  then show "\<exists>evs. trace (snd (getAccessToken s)) = trace s @ TokenFetch # evs"
    by (rule getAccessToken_acquires)
next
  assume "truthy (accessToken s) \<and>
          (\<forall>k<n. fst (Date_now (getAccessToken_times k s)) < tokenExpiry s - 300000)"
  then show "token_fetches (trace (getAccessToken_times n s)) = token_fetches (trace s)"
    using getAccessToken_times_cached [of s n] by simp
qed

theorem getAccessToken_cache_policy_witness:
  "fst (getAccessToken (cached_client 300001)) = Inr ''tok'' \<and>
   trace (snd (getAccessToken (cached_client 300001))) = [] \<and>
   (\<exists>evs. trace (snd (getAccessToken (cached_client 299999))) = TokenFetch # evs) \<and>
   token_fetches (trace (getAccessToken_times (Suc (Suc 0)) (cached_client 86400000))) = 0"
proof -
  have a: "truthy (accessToken (cached_client 300001)) \<and>
           fst (Date_now (cached_client 300001)) < tokenExpiry (cached_client 300001) - 300000"
    by code_simp
  have a': "truthy (accessToken (cached_client 300001)) \<and>
           tokenExpiry (cached_client 300001) = fst (Date_now (cached_client 300001)) + 300000 + 1"
    by code_simp
  have b: "tokenExpiry (cached_client 299999) = fst (Date_now (cached_client 299999)) + 300000 - 1"
    by code_simp
  have c0: "fst (Date_now (getAccessToken_times 0 (cached_client 86400000)))
            < tokenExpiry (cached_client 86400000) - 300000"
    by code_simp
  have c1: "fst (Date_now (getAccessToken_times (Suc 0) (cached_client 86400000)))
            < tokenExpiry (cached_client 86400000) - 300000"
    by code_simp
  have c: "truthy (accessToken (cached_client 86400000)) \<and>
           (\<forall>k<Suc (Suc 0). fst (Date_now (getAccessToken_times k (cached_client 86400000)))
                 < tokenExpiry (cached_client 86400000) - 300000)"
  proof
    show "truthy (accessToken (cached_client 86400000))" by code_simp
    show "\<forall>k<Suc (Suc 0). fst (Date_now (getAccessToken_times k (cached_client 86400000)))
                 < tokenExpiry (cached_client 86400000) - 300000"
      using c0 c1 by (simp add: less_Suc_eq)
  qed
  have t: "token_text (accessToken (cached_client 300001)) = ''tok''"
    "trace (cached_client 300001) = []" "trace (cached_client 299999) = []"
    "token_fetches (trace (cached_client 86400000)) = 0"
    by code_simp+
  show ?thesis
    using getAccessToken_cache_policy [of "cached_client 300001" 0]
      getAccessToken_cache_policy [of "cached_client 299999" 0]
      getAccessToken_cache_policy [of "cached_client 86400000" "Suc (Suc 0)"]
      a a' b c t
    by simp
qed

text \<open>
  The claim as it was stated fails for an empty token: the token endpoint answers 200
  with \<open>access_token: ""\<close> and a lifetime of a day, the cache then holds that token and
  its expiry, and the next call, well inside the margin, fetches again.
\<close>

theorem getAccessToken_empty_token_counterexample:
  "accessToken empty_token_client = Some [] \<and>
   fst (Date_now empty_token_client) < tokenExpiry empty_token_client - 300000 \<and>
   token_fetches (trace empty_token_client) = 1 \<and>
   token_fetches (trace (snd (getAccessToken empty_token_client))) = 2"
  by code_simp

text \<open>
  Claim C5. When \<open>getAccessToken\<close> makes the token exchange and the response has a
  non-success status, the call fails with an error whose message carries that status and
  the raw body text, and the cached token and expiry are what they were before the call.
\<close>

theorem getAccessToken_failure:
  assumes "\<not> (truthy (accessToken s) \<and> fst (Date_now s) < tokenExpiry s - 300000)"
    and "token_endpoint s = Inr response # rest"
    and "\<not> ok response"
  shows "fst (getAccessToken s)
           = Inl (Error (''Failed to get access token: '' @ string_of_nat (status response) @ '' ''
                         @ body_text response)) \<and>
         accessToken (snd (getAccessToken s)) = accessToken s \<and>
         tokenExpiry (snd (getAccessToken s)) = tokenExpiry s"
  using getAccessToken_rejected [OF assms] by simp

theorem getAccessToken_failure_witness:
  "fst (getAccessToken (fresh 8 [] [denied] []))
     = Inl (Error ''Failed to get access token: 401 Unauthorized'') \<and>
   accessToken (snd (getAccessToken (fresh 8 [] [denied] []))) = None \<and>
   tokenExpiry (snd (getAccessToken (fresh 8 [] [denied] []))) = 0"
proof -
  let ?s = "fresh 8 [] [denied] []"
  let ?r = "\<lparr>status = 401, retry_after = None, body_text = ''Unauthorized'',
             json = Inl (Error ''Unexpected token'')\<rparr> :: TokenResponse response"
  have 1: "\<not> (truthy (accessToken ?s) \<and> fst (Date_now ?s) < tokenExpiry ?s - 300000)"
    by code_simp
  have 2: "token_endpoint ?s = Inr ?r # []"
    by (simp add: fresh_def new_client_def denied_def)
  have 3: "\<not> ok ?r" by (simp add: ok_def)
  have 4: "string_of_nat 401 = ''401''" by code_simp
  have 5: "accessToken ?s = None" "tokenExpiry ?s = 0" by (simp_all add: fresh_def new_client_def)
  show ?thesis
    using getAccessToken_failure [OF 1 2 3] 4 5 by simp
qed

text \<open>
  Claim C6. Every successful acquisition stores exactly the \<open>access_token\<close> of the
  response, stores as expiry the clock reading taken at that moment plus \<open>expires_in\<close>
  times 1000 ms, and returns the new token. The pair is replaced as a whole: at every
  point where the call is suspended the credential pair is still the one from before the
  call, and after the call it is either that pair or the new token with its own expiry.
\<close>

theorem getAccessToken_replaces_pair:
  fixes s :: "'a client"
  shows
   "(\<exists>evs. trace (snd (getAccessToken s)) = trace s @ evs \<and>
           (\<forall>a x. Suspended a x \<in> set evs \<longrightarrow> a = accessToken s \<and> x = tokenExpiry s)) \<and>
    ((accessToken (snd (getAccessToken s)) = accessToken s \<and>
      tokenExpiry (snd (getAccessToken s)) = tokenExpiry s) \<or>
     (\<exists>response rest data. token_endpoint s = Inr response # rest \<and> json response = Inr data \<and>
        fst (getAccessToken s) = Inr (access_token data) \<and>
        accessToken (snd (getAccessToken s)) = Some (access_token data) \<and>
        tokenExpiry (snd (getAccessToken s))
          = clock (snd (getAccessToken s)) + expires_in data * 1000)) \<and>
    (\<not> (truthy (accessToken s) \<and> fst (Date_now s) < tokenExpiry s - 300000) \<and>
     token_endpoint s = Inr response # rest \<and> ok response \<and> json response = Inr data \<longrightarrow>
       fst (getAccessToken s) = Inr (access_token data) \<and>
       accessToken (snd (getAccessToken s)) = Some (access_token data) \<and>
       tokenExpiry (snd (getAccessToken s))
         = clock (snd (getAccessToken s)) + expires_in data * 1000)"
  using getAccessToken_snapshots [of s] getAccessToken_pair [of s]
    getAccessToken_granted [of s response rest data]
  by blast

theorem getAccessToken_replaces_pair_witness:
  "fst (getAccessToken (fresh 8 [5, 7] [granted ''tok'' 86400] [])) = Inr ''tok'' \<and>
   accessToken (snd (getAccessToken (fresh 8 [5, 7] [granted ''tok'' 86400] []))) = Some ''tok'' \<and>
   tokenExpiry (snd (getAccessToken (fresh 8 [5, 7] [granted ''tok'' 86400] []))) = 86400005 \<and>
   clock (snd (getAccessToken (fresh 8 [5, 7] [granted ''tok'' 86400] []))) = 5"
proof -
  let ?s = "fresh 8 [5, 7] [granted ''tok'' 86400] []"
  let ?d = "\<lparr>access_token = ''tok'', token_type = ''Bearer'', expires_in = 86400\<rparr>"
  let ?r = "\<lparr>status = 200, retry_after = None, body_text = [], json = Inr ?d\<rparr>"
  have 1: "\<not> (truthy (accessToken ?s) \<and> fst (Date_now ?s) < tokenExpiry ?s - 300000)"
    by code_simp
  have 2: "token_endpoint ?s = Inr ?r # []"
    by (simp add: fresh_def new_client_def granted_def)
  have 3: "ok ?r" by (simp add: ok_def)
  have 4: "json ?r = Inr ?d" by simp
  have 5: "clock (snd (getAccessToken ?s)) = 5" by code_simp
  show ?thesis
    using getAccessToken_replaces_pair [of ?s ?r "[]" ?d] 1 2 3 4 5 by simp
qed

section \<open>The retry delay\<close>

lemma retry_wait_cases:
  "(header = None \<or> header = Some [] \<longrightarrow> retry_wait header = 1000) \<and>
   (parseInt h = None \<longrightarrow> retry_wait (Some h) = 1000) \<and>
   (parseInt h = Some 0 \<longrightarrow> retry_wait (Some h) = 1000) \<and>
   (parseInt h = Some n \<and> n \<noteq> 0 \<longrightarrow> retry_wait (Some h) = n * 1000)"
proof -
  have one: "parseInt ''1'' = Some 1" by code_simp
  have nil: "parseInt [] = None" by code_simp
  show ?thesis
    using one nil
    by (auto simp add: retry_wait_def DEFAULT_RETRY_DELAY_def Let_def)
qed

lemma backoff_effect:
  "trace (backoff response s3)
     = trace s3 @ [Slept (retry_wait (retry_after response)), Suspended (accessToken s3) (tokenExpiry s3)]"
  "0 < retry_wait (retry_after response) \<Longrightarrow> retry_wait (retry_after response) \<le> 2147483647 \<Longrightarrow>
     clock (backoff response s3) = clock s3 + retry_wait (retry_after response)"
  by (simp_all add: backoff_def await_void_def sleep_def log_def)

text \<open>
  Claim C3, as amended. On a 429 with retries remaining, \<open>request\<close> reads the
  \<open>retry-after\<close> header with \<open>parseInt\<close> (an absent or empty header reads as 1), calls
  \<open>sleep\<close> with the parsed number times 1000 whenever that number is a non-zero integer,
  negative ones included, and with the fixed default delay of 1000 ms when the header is
  absent, is not a number or is zero; it then calls itself with the budget decremented by
  one. A sleep of a positive duration (up to the largest delay the timer takes) moves the
  clock on by at least that duration.
\<close>

theorem request_retry_after:
  fixes s :: "'a client"
  shows
   "(attempt m p b s = (Inr response, s3) \<and> status response = 429 \<and> 0 < retries \<longrightarrow>
       request m p b retries s
         = request m p b (retries - 1) (await_void (sleep (retry_wait (retry_after response)) s3))) \<and>
    (header = None \<or> header = Some [] \<longrightarrow> retry_wait header = 1000) \<and>
    (parseInt h = None \<longrightarrow> retry_wait (Some h) = 1000) \<and>
    (parseInt h = Some 0 \<longrightarrow> retry_wait (Some h) = 1000) \<and>
    (parseInt h = Some n \<and> n \<noteq> 0 \<longrightarrow> retry_wait (Some h) = n * 1000) \<and>
    trace (await_void (sleep w s3)) = trace s3 @ [Slept w, Suspended (accessToken s3) (tokenExpiry s3)] \<and>
    (0 < w \<and> w \<le> 2147483647 \<longrightarrow> clock (await_void (sleep w s3)) = clock s3 + w)"
proof -
  have "request m p b retries s
         = request m p b (retries - 1) (await_void (sleep (retry_wait (retry_after response)) s3))"
    if "attempt m p b s = (Inr response, s3)" "status response = 429" "0 < retries"
    using that by (subst request_unfold) (simp add: backoff_def)
  moreover have "trace (await_void (sleep w s3))
                 = trace s3 @ [Slept w, Suspended (accessToken s3) (tokenExpiry s3)]"
    by (simp add: await_void_def sleep_def log_def)
  moreover have "clock (await_void (sleep w s3)) = clock s3 + w" if "0 < w" "w \<le> 2147483647"
    using that by (simp add: await_void_def sleep_def log_def)
  ultimately show ?thesis
    using retry_wait_cases [of header h n] by blast
qed

theorem request_retry_after_witness:
  "request ''GET'' ''/api/v2/clients'' None 3 retry_client
     = request ''GET'' ''/api/v2/clients'' None 2
         (await_void (sleep 2000 (snd (attempt ''GET'' ''/api/v2/clients'' None retry_client)))) \<and>
   retry_wait None = 1000 \<and> retry_wait (Some ''soon'') = 1000 \<and> retry_wait (Some ''0'') = 1000 \<and>
   retry_wait (Some ''2'') = 2000 \<and>
   clock (await_void (sleep 2000 retry_client)) = 2000"
proof -
  let ?s3 = "snd (attempt ''GET'' ''/api/v2/clients'' None retry_client)"
  let ?r = "\<lparr>status = 429, retry_after = Some ''2'', body_text = ''Too Many Requests'',
             json = Inl (Error ''Unexpected token'')\<rparr> :: unit response"
  have "fst (attempt ''GET'' ''/api/v2/clients'' None retry_client) = Inr ?r" by code_simp
  then have a: "attempt ''GET'' ''/api/v2/clients'' None retry_client = (Inr ?r, ?s3)"
    by (simp add: prod_eq_iff)
  have p: "parseInt ''soon'' = None" "parseInt ''0'' = Some 0" "parseInt ''2'' = Some 2"
    by code_simp+
  have c: "clock retry_client = 0" by code_simp
  have w: "retry_wait (retry_after ?r) = 2000" by code_simp
  show ?thesis
    using request_retry_after [of "''GET''" "''/api/v2/clients''" None retry_client ?r ?s3 3 None "''soon''" 0 2000]
      request_retry_after [of "''GET''" "''/api/v2/clients''" None retry_client ?r retry_client 3 None "''0''" 0 2000]
      request_retry_after [of "''GET''" "''/api/v2/clients''" None retry_client ?r ?s3 3 None "''2''" 2 2000]
      a p c w
    by simp
qed

text \<open>
  The claim as it was stated fails for a negative header: \<open>retry-after: -5\<close> gives a
  computed delay of -5000 ms, which is not positive, and \<open>sleep\<close> is called with -5000,
  not with the default delay.
\<close>

theorem retry_after_negative_counterexample:
  "parseInt ''-5'' = Some (- 5) \<and> (- 5) * 1000 \<le> (0 :: int) \<and>
   retry_wait (Some ''-5'') = - 5000 \<and> retry_wait (Some ''-5'') \<noteq> DEFAULT_RETRY_DELAY \<and>
   Slept (- 5000) \<in> set (trace (snd (request ''GET'' ''/api/v2/clients'' None MAX_RETRIES negative_retry_client))) \<and>
   Slept DEFAULT_RETRY_DELAY \<notin> set (trace (snd (request ''GET'' ''/api/v2/clients'' None MAX_RETRIES negative_retry_client)))"
  by code_simp

section \<open>Responses without content\<close>

lemma backoff_api [simp]: "api_endpoint (backoff response s) = api_endpoint s"
  by (simp add: backoff_def await_void_def sleep_def log_def)

lemma settle_api [simp]: "api_endpoint (snd (settle response s)) = api_endpoint s"
  by (simp add: settle_def await_def log_def split: sum.splits)

lemma settle_no_content: "status response = 204 \<Longrightarrow> settle response s = (Inr None, s)"
  by (simp add: settle_def ok_def)

lemma served_same: "api_endpoint s' = api_endpoint s \<Longrightarrow> served s s' = []"
  by (simp add: served_def)

lemma served_step:
  assumes "api_endpoint s = x # rest" and "api_endpoint s1 = rest"
    and "api_endpoint s' = drop k (api_endpoint s1)"
  shows "served s s' = x # served s1 s'"
proof -
  have "length (x # rest) - length (drop k rest) = Suc (length rest - length (drop k rest))"
    by simp
  then show ?thesis using assms by (simp add: served_def)
qed

lemma request_served:
  "(\<exists>k. api_endpoint (snd (request m p b retries s)) = drop k (api_endpoint s)) \<and>
   (\<forall>response. served s (snd (request m p b retries s)) \<noteq> [] \<and>
        last (served s (snd (request m p b retries s))) = Inr response \<and> status response = 204
        \<longrightarrow> fst (request m p b retries s) = Inr None)"
proof (induction retries s rule: request_induct [where m = m and p = p and b = b])
  case (step retries s)
  show ?case
  proof (cases "fst (getAccessToken (admitted s))")
    case (Inl e)
    from attempt_auth_failed [OF Inl, of m p b]
    have a: "fst (attempt m p b s) = Inl e" "api_endpoint (snd (attempt m p b s)) = api_endpoint s"
      by blast+
    have eq: "request m p b retries s = (Inl e, snd (attempt m p b s))"
      using a(1) by (subst request_unfold, cases "attempt m p b s") simp
    have "api_endpoint (snd (request m p b retries s)) = drop 0 (api_endpoint s)"
      by (simp add: eq a(2))
    moreover have "served s (snd (request m p b retries s)) = []"
      by (simp add: eq a(2) served_same)
    ultimately show ?thesis by blast
  next
    case (Inr tok)
    from attempt_sent [OF Inr, of m p b]
    have a: "fst (attempt m p b s) = (case api_endpoint s of [] \<Rightarrow> Inl (Error ''fetch failed'') | r # _ \<Rightarrow> r)"
      "api_endpoint (snd (attempt m p b s)) = tl (api_endpoint s)"
      by blast+
    obtain r0 s3 where att: "attempt m p b s = (r0, s3)" by (cases "attempt m p b s")
    show ?thesis
    proof (cases "api_endpoint s")
      case Nil
      with a att obtain e where r0: "r0 = Inl e" and s3: "api_endpoint s3 = api_endpoint s" by simp
      have eq: "request m p b retries s = (Inl e, s3)"
        using att r0 by (subst request_unfold) simp
      have "api_endpoint (snd (request m p b retries s)) = drop 0 (api_endpoint s)"
        by (simp add: eq s3)
      moreover have "served s (snd (request m p b retries s)) = []"
        by (simp add: eq s3 served_same)
      ultimately show ?thesis by blast
    next
      case (Cons x rest)
      with a att have r0: "r0 = x" and s3: "api_endpoint s3 = rest" by simp_all
      have one: "served s s3 = [x]"
        using served_step [OF Cons s3, of s3 0] by (simp add: served_same)
      show ?thesis
      proof (cases x)
        case (Inl e)
        have eq: "request m p b retries s = (Inl e, s3)"
          using att r0 Inl by (subst request_unfold) simp
        have "api_endpoint (snd (request m p b retries s)) = drop 1 (api_endpoint s)"
          by (simp add: eq s3 Cons)
        moreover have "served s (snd (request m p b retries s)) = [Inl e]"
          using one Inl by (simp add: eq)
        ultimately show ?thesis by (metis last.simps sum.distinct(1))
      next
        case r: (Inr response)
        show ?thesis
        proof (cases "status response = 429 \<and> retries > 0")
          case True
          let ?s4 = "backoff response s3"
          let ?res = "request m p b (retries - 1) ?s4"
          have eq: "request m p b retries s = ?res"
            using att r0 r True by (subst request_unfold) simp
          from step [of response s3] att r0 r True
          obtain k where ih1: "api_endpoint (snd ?res) = drop k (api_endpoint ?s4)"
            and ih2: "\<And>resp. served ?s4 (snd ?res) \<noteq> [] \<Longrightarrow> last (served ?s4 (snd ?res)) = Inr resp \<Longrightarrow>
                       status resp = 204 \<Longrightarrow> fst ?res = Inr None"
            by auto
          have s4: "api_endpoint ?s4 = rest" by (simp add: s3)
          have sv: "served s (snd ?res) = x # served ?s4 (snd ?res)"
            by (rule served_step [OF Cons s4 ih1])
          have "api_endpoint (snd ?res) = drop (Suc k) (api_endpoint s)"
            using ih1 by (simp add: s3 Cons)
          moreover have "fst ?res = Inr None"
            if "last (served s (snd ?res)) = Inr resp" "status resp = 204" for resp
          proof (cases "served ?s4 (snd ?res) = []")
            case e: True
            with that sv r True show ?thesis by simp
          next
            case False
            with that sv have "last (served ?s4 (snd ?res)) = Inr resp" by simp
            from ih2 [OF False this that(2)] show ?thesis .
          qed
          ultimately show ?thesis unfolding eq by blast
        next
          case False
          have eq: "request m p b retries s = settle response s3"
            using att r0 r False by (subst request_unfold) auto
          have "api_endpoint (snd (request m p b retries s)) = drop 1 (api_endpoint s)"
            by (simp add: eq s3 Cons)
          moreover have sv: "served s (snd (request m p b retries s)) = [Inr response]"
            using served_step [OF Cons s3, of "snd (settle response s3)" 0] r
            by (simp add: eq served_same s3)
          moreover have "fst (request m p b retries s) = Inr None" if "status response = 204"
            using that by (simp add: eq settle_no_content)
          ultimately show ?thesis by (metis last.simps sum.inject(2))
        qed
      qed
    qed
  qed
qed

text \<open>
  Claim C8. Whenever the last response that a call of \<open>request\<close> received has status
  204, the call resolves with \<open>undefined\<close> (\<open>Inr None\<close>), whatever \<open>json()\<close> would have
  done on that response: the body is not parsed.
\<close>

theorem request_no_content:
  assumes "request m p b retries s = (res, s')"
    and "served s s' \<noteq> []"
    and "last (served s s') = Inr response"
    and "status response = 204"
  shows "res = Inr None"
  using request_served [of m p b retries s] assms by auto

theorem request_no_content_witness:
  "json \<lparr>status = 204, retry_after = None, body_text = [],
         json = Inl (Error ''Unexpected end of JSON input'') :: thrown + unit\<rparr>
     = Inl (Error ''Unexpected end of JSON input'') \<and>
   fst (request ''DELETE'' ''/api/v2/clients/app1'' None MAX_RETRIES delete_client) = Inr None"
proof -
  let ?q = "request ''DELETE'' ''/api/v2/clients/app1'' None MAX_RETRIES delete_client"
  let ?r = "\<lparr>status = 204, retry_after = None, body_text = [],
             json = Inl (Error ''Unexpected end of JSON input'')\<rparr> :: unit response"
  have 1: "?q = (fst ?q, snd ?q)" by simp
  have 2: "served delete_client (snd ?q) \<noteq> []" by code_simp
  have 3: "last (served delete_client (snd ?q)) = Inr ?r" by code_simp
  have 4: "status ?r = 204" by simp
  show ?thesis using request_no_content [OF 1 2 3 4] by simp
qed

section \<open>The connection test\<close>

text \<open>
  Claim C9. \<open>testConnection\<close> never throws: it always resolves with a result. The result
  is \<open>{success: true}\<close> when the token acquisition and the list-applications probe both
  succeed, and \<open>{success: false, error: message}\<close> when either throws, where the message
  is that of the thrown error (or \<open>Unknown error\<close> for a thrown value that is no \<open>Error\<close>).
\<close>

theorem testConnection_never_throws:
  fixes s :: "'a client"
  shows
   "(\<exists>r. fst (testConnection s) = Inr r) \<and>
    (fst (getAccessToken s) = Inl e \<longrightarrow>
       fst (testConnection s)
         = Inr \<lparr>success = False,
                error = Some (case e of Error msg \<Rightarrow> msg | NonError \<Rightarrow> ''Unknown error'')\<rparr>) \<and>
    (fst (getAccessToken s) = Inr tok \<and>
     fst (listApplications None (snd (await (getAccessToken s)))) = Inl e \<longrightarrow>
       fst (testConnection s)
         = Inr \<lparr>success = False,
                error = Some (case e of Error msg \<Rightarrow> msg | NonError \<Rightarrow> ''Unknown error'')\<rparr>) \<and>
    (fst (getAccessToken s) = Inr tok \<and>
     fst (listApplications None (snd (await (getAccessToken s)))) = Inr v \<longrightarrow>
       fst (testConnection s) = Inr \<lparr>success = True, error = None\<rparr>)"
proof -
  obtain g s1 where g: "getAccessToken s = (g, s1)" by (cases "getAccessToken s")
  obtain l s2 where l: "listApplications None (snd (await (g, s1))) = (l, s2)"
    by (cases "listApplications None (snd (await (g, s1)))")
  show ?thesis
    using g l
    by (cases g; cases l)
       (simp_all add: testConnection_def connection_failure_def await_def split: prod.splits)
qed

theorem testConnection_never_throws_witness:
  "fst (testConnection scenario_a) = Inr \<lparr>success = True, error = None\<rparr> \<and>
   fst (testConnection scenario_b)
     = Inr \<lparr>success = False, error = Some ''Failed to get access token: 401 Unauthorized''\<rparr> \<and>
   fst (testConnection scenario_reject) = Inr \<lparr>success = False, error = Some ''Unknown error''\<rparr> \<and>
   fst (testConnection scenario_forbidden)
     = Inr \<lparr>success = False, error = Some ''Auth0 API error: 403 Insufficient scope''\<rparr>"
proof -
  have d: "fst (getAccessToken scenario_forbidden) = Inr ''tok'' \<and>
           fst (listApplications None (snd (await (getAccessToken scenario_forbidden))))
             = Inl (Error ''Auth0 API error: 403 Insufficient scope'')"
    by code_simp
  have a: "fst (getAccessToken scenario_a) = Inr ''tok'' \<and>
           fst (listApplications None (snd (await (getAccessToken scenario_a)))) = Inr (Some ())"
    by code_simp
  have b: "fst (getAccessToken scenario_b) = Inl (Error ''Failed to get access token: 401 Unauthorized'')"
    by code_simp
  have c: "fst (getAccessToken scenario_reject) = Inl NonError"
    by code_simp
  show ?thesis
    using testConnection_never_throws [of scenario_a NonError "''tok''" "Some ()"]
      testConnection_never_throws [of scenario_b "Error ''Failed to get access token: 401 Unauthorized''" "[]" None]
      testConnection_never_throws [of scenario_reject NonError "[]" None]
      testConnection_never_throws [of scenario_forbidden
        "Error ''Auth0 API error: 403 Insufficient scope''" "''tok''" None]
      a b c d
    by simp
qed

section \<open>The retry budget\<close>

lemma backoff_token [simp]: "token_endpoint (backoff response s) = token_endpoint s"
  by (simp add: backoff_def await_void_def sleep_def log_def)

lemma admitted_token [simp]: "token_endpoint (admitted s) = token_endpoint s"
  by (simp add: admitted_def await_void_def log_def waitForRateLimit_frame)

lemma fetch_api_token [simp]: "token_endpoint (snd (fetch_api m p b tok s)) = token_endpoint s"
  by (simp add: fetch_api_def log_def split: list.splits)

lemma attempt_token:
  "token_endpoint (snd (attempt m p b s)) = token_endpoint (snd (getAccessToken (admitted s)))"
proof (cases "fst (getAccessToken (admitted s))")
  case (Inl e)
  then have "attempt m p b s = (Inl e, snd (await (getAccessToken (admitted s))))"
    by (simp add: attempt_def admitted_def Let_def await_def split: prod.splits)
  then show ?thesis by (simp add: await_def log_def)
next
  case (Inr tok)
  then have "attempt m p b s
    = await (fetch_api m p b tok (log (Authenticated tok) (snd (await (getAccessToken (admitted s))))))"
    by (simp add: attempt_def admitted_def Let_def await_def split: prod.splits)
  then show ?thesis by (simp add: await_def log_def)
qed

lemma getAccessToken_all_granted:
  assumes "all_granted (token_endpoint s)" and "token_endpoint s \<noteq> []"
  shows "\<exists>tok. fst (getAccessToken s) = Inr tok"
    and "token_endpoint (snd (getAccessToken s)) = token_endpoint s \<or>
         token_endpoint (snd (getAccessToken s)) = tl (token_endpoint s)"
proof -
  have "(\<exists>tok. fst (getAccessToken s) = Inr tok) \<and>
        (token_endpoint (snd (getAccessToken s)) = token_endpoint s \<or>
         token_endpoint (snd (getAccessToken s)) = tl (token_endpoint s))"
  proof (cases "truthy (accessToken s) \<and> fst (Date_now s) < tokenExpiry s - 300000")
    case True
    then have "getAccessToken s = (Inr (token_text (accessToken s)), snd (Date_now s))"
      by (simp add: getAccessToken_cached)
    then show ?thesis by simp
  next
    case False
    from assms obtain response rest data where
      t: "token_endpoint s = Inr response # rest" "ok response" "json response = Inr data"
      by (cases "token_endpoint s") (auto simp add: all_granted_def split: sum.splits)
    from getAccessToken_granted [OF False t] t(1) show ?thesis by simp
  qed
  then show "\<exists>tok. fst (getAccessToken s) = Inr tok"
    and "token_endpoint (snd (getAccessToken s)) = token_endpoint s \<or>
         token_endpoint (snd (getAccessToken s)) = tl (token_endpoint s)" by blast+
qed

lemma all_granted_tl: "all_granted rs \<Longrightarrow> all_granted (tl rs)"
  by (cases rs) (simp_all add: all_granted_def)

lemma all_429_Cons:
  "all_429 (x # rest) \<Longrightarrow> (\<exists>response. x = Inr response \<and> status response = 429) \<and> all_429 rest"
  by (cases x) (simp_all add: all_429_def)

lemma settle_429:
  "status response = 429 \<Longrightarrow>
   fst (settle response s) = Inl (Error (''Auth0 API error: 429 '' @ body_text response))"
proof -
  have "string_of_nat 429 = ''429''" by code_simp
  then show "status response = 429 \<Longrightarrow>
    fst (settle response s) = Inl (Error (''Auth0 API error: 429 '' @ body_text response))"
    by (simp add: settle_def ok_def await_def)
qed

lemma request_exhaustion:
  "0 \<le> retries \<Longrightarrow> nat retries < length (api_endpoint s) \<Longrightarrow>
   nat retries < length (token_endpoint s) \<Longrightarrow>
   all_429 (take (Suc (nat retries)) (api_endpoint s)) \<Longrightarrow>
   all_granted (token_endpoint s) \<Longrightarrow>
   \<exists>response evs. api_endpoint s ! nat retries = Inr response \<and>
      fst (request m p b retries s) = Inl (Error (''Auth0 API error: 429 '' @ body_text response)) \<and>
      trace (snd (request m p b retries s)) = trace s @ evs \<and>
      api_fetches evs = nat retries + 1"
proof (induction retries s rule: request_induct [where m = m and p = p and b = b])
  case (step retries s)
  from step.prems(2) obtain x rest where api: "api_endpoint s = x # rest"
    by (cases "api_endpoint s") auto
  have "all_429 (x # take (nat retries) rest)" using step.prems(4) by (simp add: api)
  from all_429_Cons [OF this]
  obtain response where x: "x = Inr response" and st: "status response = 429"
    and rest: "all_429 (take (nat retries) rest)"
    by blast
  have tne: "token_endpoint (admitted s) \<noteq> []" using step.prems(3) by auto
  have tg: "all_granted (token_endpoint (admitted s))" using step.prems(5) by simp
  from getAccessToken_all_granted [OF tg tne]
  obtain tok where tok: "fst (getAccessToken (admitted s)) = Inr tok"
    and tk: "token_endpoint (snd (getAccessToken (admitted s))) = token_endpoint s \<or>
             token_endpoint (snd (getAccessToken (admitted s))) = tl (token_endpoint s)"
    by auto
  obtain r0 s3 where att: "attempt m p b s = (r0, s3)" by (cases "attempt m p b s")
  from attempt_sent [OF tok, of m p b] att api x
  obtain evs1 t where r0: "r0 = Inr response" and s3: "api_endpoint s3 = rest"
    and tr1: "trace s3 = trace s @ evs1" and f1: "api_fetches evs1 = 1"
    by auto
  have tk3: "token_endpoint s3 = token_endpoint s \<or> token_endpoint s3 = tl (token_endpoint s)"
    using attempt_token [of m p b s] att tk by simp
  show ?case
  proof (cases "0 < retries")
    case True
    let ?s4 = "backoff response s3"
    have eq: "request m p b retries s = request m p b (retries - 1) ?s4"
      using att r0 st True by (subst request_unfold) simp
    have n: "nat retries = Suc (nat (retries - 1))" using True by linarith
    have 1: "0 \<le> retries - 1" using True by simp
    have 2: "nat (retries - 1) < length (api_endpoint ?s4)"
      using step.prems(2) n by (simp add: s3 api)
    have 3: "nat (retries - 1) < length (token_endpoint ?s4)"
      using step.prems(3) n tk3 by auto
    have 4: "all_429 (take (Suc (nat (retries - 1))) (api_endpoint ?s4))"
      using rest n by (simp add: s3)
    have 5: "all_granted (token_endpoint ?s4)"
      using tk3 step.prems(5) all_granted_tl [of "token_endpoint s"] by auto
    from step.IH [OF _ st True 1 2 3 4 5] att r0
    obtain response' evs3 where ih: "api_endpoint ?s4 ! nat (retries - 1) = Inr response'"
      "fst (request m p b (retries - 1) ?s4) = Inl (Error (''Auth0 API error: 429 '' @ body_text response'))"
      "trace (snd (request m p b (retries - 1) ?s4)) = trace ?s4 @ evs3"
      "api_fetches evs3 = nat (retries - 1) + 1"
      by auto
    obtain evs2 where bo: "trace ?s4 = trace s3 @ evs2" "list_all is_wait_event evs2"
      using backoff_trace [of response s3] by blast
    have "api_endpoint s ! nat retries = Inr response'"
      using ih(1) n by (simp add: api s3)
    moreover have "trace (snd (request m p b retries s)) = trace s @ (evs1 @ evs2 @ evs3)"
      by (simp add: eq ih(3) bo(1) tr1)
    moreover have "api_fetches (evs1 @ evs2 @ evs3) = nat retries + 1"
      using f1 wait_events_silent(3) [OF bo(2)] ih(4) n by simp
    ultimately show ?thesis using ih(2) eq by metis
  next
    case False
    with step.prems(1) have z: "retries = 0" by simp
    have eq: "request m p b retries s = settle response s3"
      using att r0 False by (subst request_unfold) simp
    obtain evs2 where se: "trace (snd (settle response s3)) = trace s3 @ evs2" "list_all is_wait_event evs2"
      using settle_trace [of response s3] by blast
    have "api_endpoint s ! nat retries = Inr response" by (simp add: z api x)
    moreover have "fst (request m p b retries s) = Inl (Error (''Auth0 API error: 429 '' @ body_text response))"
      by (simp add: eq settle_429 [OF st])
    moreover have "trace (snd (request m p b retries s)) = trace s @ (evs1 @ evs2)"
      by (simp add: eq se(1) tr1)
    moreover have "api_fetches (evs1 @ evs2) = nat retries + 1"
      using f1 wait_events_silent(3) [OF se(2)] z by simp
    ultimately show ?thesis by blast
  qed
qed

text \<open>
  Claim C4. The retry budget is the constant 3 for every public call, each retry after
  a 429 continues with the budget decremented by one, and no call of \<open>request\<close> makes
  more HTTP attempts than its budget plus one. When every attempt is answered with 429
  (and every token request is granted), the call makes exactly budget + 1 attempts, four
  for the public calls, and fails with the error \<open>Auth0 API error: 429\<close> followed by the
  body text of the last response.
\<close>

theorem request_retry_budget:
  fixes s :: "'a client"
  shows
   "MAX_RETRIES = 3 \<and>
    listApplications None s = request ''GET'' ''/api/v2/clients'' None 3 s \<and>
    (attempt m p b s = (Inr response, s3) \<and> status response = 429 \<and> 0 < retries \<longrightarrow>
       request m p b retries s = request m p b (retries - 1) (backoff response s3)) \<and>
    (\<exists>evs. trace (snd (request m p b retries s)) = trace s @ evs \<and>
           api_fetches evs \<le> nat retries + 1) \<and>
    (0 \<le> retries \<and> nat retries < length (api_endpoint s) \<and>
     nat retries < length (token_endpoint s) \<and>
     all_429 (take (Suc (nat retries)) (api_endpoint s)) \<and>
     all_granted (token_endpoint s) \<longrightarrow>
       (\<exists>last_response evs.
          api_endpoint s ! nat retries = Inr last_response \<and>
          fst (request m p b retries s)
            = Inl (Error (''Auth0 API error: 429 '' @ body_text last_response)) \<and>
          trace (snd (request m p b retries s)) = trace s @ evs \<and>
          api_fetches evs = nat retries + 1))"
proof -
  have 1: "MAX_RETRIES = 3" by (simp add: MAX_RETRIES_def)
  have 2: "listApplications None s = request ''GET'' ''/api/v2/clients'' None 3 s"
    by (simp add: listApplications_def MAX_RETRIES_def)
  have 3: "request m p b retries s = request m p b (retries - 1) (backoff response s3)"
    if "attempt m p b s = (Inr response, s3)" "status response = 429" "0 < retries"
    using that by (subst request_unfold) simp
  have 4: "\<exists>evs. trace (snd (request m p b retries s)) = trace s @ evs \<and>
           api_fetches evs \<le> nat retries + 1"
    using request_trace [of m p b retries s] by blast
  show ?thesis
    using 1 2 3 4 request_exhaustion [of retries s m p b] by blast
qed

theorem request_retry_budget_witness:
  "fst (listApplications None exhausted_client)
     = Inl (Error ''Auth0 API error: 429 Too Many Requests'') \<and>
   (\<exists>evs. trace (snd (listApplications None exhausted_client)) = evs \<and> api_fetches evs = 4) \<and>
   request ''GET'' ''/api/v2/clients'' None 3 exhausted_client
     = request ''GET'' ''/api/v2/clients'' None 2
         (backoff \<lparr>status = 429, retry_after = None, body_text = ''Too Many Requests'',
                    json = Inl (Error ''Unexpected token'')\<rparr>
            (snd (attempt ''GET'' ''/api/v2/clients'' None exhausted_client)))"
proof -
  let ?s = exhausted_client
  let ?r = "\<lparr>status = 429, retry_after = None, body_text = ''Too Many Requests'',
             json = Inl (Error ''Unexpected token'')\<rparr> :: unit response"
  let ?s3 = "snd (attempt ''GET'' ''/api/v2/clients'' None ?s)"
  have "fst (attempt ''GET'' ''/api/v2/clients'' None ?s) = Inr ?r" by code_simp
  then have a: "attempt ''GET'' ''/api/v2/clients'' None ?s = (Inr ?r, ?s3)"
    by (simp add: prod_eq_iff)
  have b: "status ?r = 429 \<and> (0::int) < 3" by simp
  have c: "(3::int) - 1 = 2" by simp
  from request_retry_budget [of ?s "''GET''" "''/api/v2/clients''" None ?r ?s3 3] a b
  have "request ''GET'' ''/api/v2/clients'' None 3 ?s
            = request ''GET'' ''/api/v2/clients'' None (3 - 1) (backoff ?r ?s3)"
    by blast
  then have st: "request ''GET'' ''/api/v2/clients'' None 3 ?s
            = request ''GET'' ''/api/v2/clients'' None 2 (backoff ?r ?s3)"
    by (simp only: c)
  have h: "(0::int) \<le> 3 \<and> nat 3 < length (api_endpoint ?s) \<and>
           nat 3 < length (token_endpoint ?s) \<and>
           all_429 (take (Suc (nat 3)) (api_endpoint ?s)) \<and> all_granted (token_endpoint ?s)"
    by code_simp
  note inst = request_retry_budget [of ?s "''GET''" "''/api/v2/clients''" None _ _ 3]
  from inst have l: "listApplications None ?s = request ''GET'' ''/api/v2/clients'' None 3 ?s"
    by blast
  from inst h obtain last_response evs where
    e: "api_endpoint ?s ! nat 3 = Inr last_response"
       "fst (request ''GET'' ''/api/v2/clients'' None 3 ?s)
          = Inl (Error (''Auth0 API error: 429 '' @ body_text last_response))"
       "trace (snd (request ''GET'' ''/api/v2/clients'' None 3 ?s)) = trace ?s @ evs"
       "api_fetches evs = nat 3 + 1"
    by blast
  have t: "trace ?s = []" by code_simp
  have r: "api_endpoint ?s ! nat 3 = too_many None" by code_simp
  from e(1) r have "body_text last_response = ''Too Many Requests''"
    by (auto simp add: too_many_def)
  with e(2) e(3) e(4) t st show ?thesis by (simp add: l)
qed

section \<open>The window of the rate governor\<close>

lemma request_preserves:
  fixes I :: "'a client \<Rightarrow> bool"
  assumes q: "\<And>s s'. quiet s s' \<Longrightarrow> I s \<Longrightarrow> I s'"
    and w: "\<And>s. I s \<Longrightarrow> I (waitForRateLimit s)"
  shows "I s \<Longrightarrow> I (snd (request m p b retries s))"
proof (induction retries s rule: request_induct [where m = m and p = p and b = b])
  case (step retries s)
  have "I (admitted s)"
    unfolding admitted_def by (rule q [OF quiet_await_void w [OF step.prems]])
  then have a: "I (snd (attempt m p b s))" by (rule q [OF attempt_quiet])
  obtain r0 s3 where att: "attempt m p b s = (r0, s3)" by (cases "attempt m p b s")
  with a have s3: "I s3" by simp
  show ?case
  proof (cases r0)
    case (Inl e)
    have "request m p b retries s = (Inl e, s3)"
      using att Inl by (subst request_unfold) simp
    with s3 show ?thesis by simp
  next
    case r: (Inr response)
    show ?thesis
    proof (cases "status response = 429 \<and> retries > 0")
      case True
      have eq: "request m p b retries s = request m p b (retries - 1) (backoff response s3)"
        using att r True by (subst request_unfold) simp
      have "I (backoff response s3)" by (rule q [OF quiet_backoff s3])
      with step.IH [of response s3] att r True show ?thesis by (simp add: eq)
    next
      case False
      have eq: "request m p b retries s = settle response s3"
        using att r False by (subst request_unfold) auto
      show ?thesis unfolding eq by (rule q [OF quiet_settle s3])
    qed
  qed
qed

lemma perform_preserves:
  fixes I :: "'a client \<Rightarrow> bool"
  assumes q: "\<And>s s'. quiet s s' \<Longrightarrow> I s \<Longrightarrow> I s'"
    and w: "\<And>s. I s \<Longrightarrow> I (waitForRateLimit s)"
    and s: "I s"
  shows "I (perform c s)"
proof (cases c)
  case Admit
  then show ?thesis using w [OF s] by simp
next
  case GetAccessToken
  then show ?thesis using q [OF quiet_getAccessToken s] by simp
next
  case (Request m p b)
  then show ?thesis using request_preserves [of I, OF q w s] by simp
next
  case (ListApplications options)
  then show ?thesis
    using request_preserves [of I, OF q w s] by (simp add: listApplications_def Let_def)
next
  case TestConnection
  let ?g = "getAccessToken s"
  have 1: "I (snd (await ?g))"
    using q [OF quiet_await [of "snd ?g" "fst ?g"] q [OF quiet_getAccessToken s]] by simp
  let ?l = "listApplications None (snd (await ?g))"
  have "I (snd ?l)"
    using request_preserves [of I, OF q w 1] by (simp add: listApplications_def Let_def)
  then have 2: "I (snd (await ?l))"
    using q [OF quiet_await [of "snd ?l" "fst ?l"]] by simp
  have "snd (testConnection s) = snd (await ?g) \<or> snd (testConnection s) = snd (await ?l)"
    by (simp add: testConnection_def split: prod.splits sum.splits)
  with 1 2 TestConnection show ?thesis by auto
qed

lemma run_preserves:
  fixes I :: "'a client \<Rightarrow> bool"
  assumes q: "\<And>s s'. quiet s s' \<Longrightarrow> I s \<Longrightarrow> I s'"
    and w: "\<And>s. I s \<Longrightarrow> I (waitForRateLimit s)"
  shows "I s \<Longrightarrow> I (run cs s)"
proof (induction cs arbitrary: s)
  case Nil
  then show ?case by simp
next
  case (Cons c cs)
  have "I (perform c s)" by (rule perform_preserves [of I, OF q w Cons.prems])
  from Cons.IH [OF this] show ?case by simp
qed

lemma quiet_limit: "quiet s s' \<Longrightarrow> rateLimitPerSecond s' = rateLimitPerSecond s"
  by (simp add: quiet_def)

lemma run_gov_inv:
  assumes "gov_inv s" and "1 \<le> rateLimitPerSecond s"
  shows "gov_inv (run cs s) \<and> rateLimitPerSecond (run cs s) = rateLimitPerSecond s"
proof -
  define L where "L = rateLimitPerSecond s"
  define I :: "'a client \<Rightarrow> bool" where "I = (\<lambda>x. gov_inv x \<and> rateLimitPerSecond x = L)"
  have q: "I y" if "quiet x y" "I x" for x y
    using that quiet_inv [of x y] quiet_limit [of x y] by (simp add: I_def)
  have w: "I (waitForRateLimit x)" if "I x" for x
    using that assms(2) waitForRateLimit_inv [of x]
    by (simp add: I_def L_def waitForRateLimit_frame)
  have "I s" using assms(1) by (simp add: I_def L_def)
  from run_preserves [of I, OF q w this] show ?thesis by (simp add: I_def L_def)
qed

lemma fresh_gov_inv:
  assumes "0 \<le> rateLimitPerSecond s" and "requestTimestamps s = []" and "admissions (trace s) = []"
  shows "gov_inv s"
  using assms by (simp add: gov_inv_def window_count_def)

text \<open>
  Claim C2, as amended. When the quota \<open>rateLimitPerSecond\<close> is at least 1, then after
  any sequence of calls made one after the other on a client that starts with an empty
  window, no window of 1000 ms, taken as the instants \<open>t\<close> with \<open>lo < t \<le> lo + 1000\<close>,
  holds more than \<open>rateLimitPerSecond\<close> admission timestamps.
\<close>

theorem rate_governor_window:
  assumes "1 \<le> rateLimitPerSecond s"
    and "requestTimestamps s = []"
    and "admissions (trace s) = []"
  shows "window_count lo (admissions (trace (run cs s))) \<le> rateLimitPerSecond s"
proof -
  have "gov_inv s" using assms by (intro fresh_gov_inv) simp_all
  from run_gov_inv [OF this assms(1), of cs]
  have "\<forall>lo. window_count lo (admissions (trace (run cs s))) \<le> rateLimitPerSecond (run cs s)"
    and "rateLimitPerSecond (run cs s) = rateLimitPerSecond s"
    by (auto simp add: gov_inv_def)
  then show ?thesis by metis
qed

theorem rate_governor_window_witness:
  "admissions (trace (run burst burst_client)) = [2, 4, 1012, 1012, 2022] \<and>
   window_count 1011 (admissions (trace (run burst burst_client))) = 2 \<and>
   window_count 1012 (admissions (trace (run burst burst_client))) \<le> 2"
proof -
  have h: "1 \<le> rateLimitPerSecond burst_client \<and> requestTimestamps burst_client = [] \<and>
           admissions (trace burst_client) = [] \<and> rateLimitPerSecond burst_client = 2"
    by code_simp
  have e: "admissions (trace (run burst burst_client)) = [2, 4, 1012, 1012, 2022]"
    by code_simp
  have c: "window_count 1011 [2, 4, 1012, 1012, 2022] = 2"
    by code_simp
  show ?thesis
    using rate_governor_window [of burst_client 1012 burst] h e c by simp
qed

text \<open>
  The claim as it was stated fails for a quota of zero: the governor delays and never
  rejects, so the first call is admitted and its timestamp alone exceeds the quota.
\<close>

theorem rate_limit_zero_counterexample:
  "rateLimitPerSecond (fresh 0 [] [] []) = 0 \<and>
   admissions (trace (waitForRateLimit (fresh 0 [] [] []))) = [0] \<and>
   window_count (- 1) (admissions (trace (waitForRateLimit (fresh 0 [] [] [])))) = 1 \<and>
   \<not> window_count (- 1) (admissions (trace (waitForRateLimit (fresh 0 [] [] []))))
       \<le> rateLimitPerSecond (waitForRateLimit (fresh 0 [] [] []))"
  by code_simp

lemma window_sorted_quiet: "quiet s s' \<Longrightarrow> window_sorted s \<Longrightarrow> window_sorted s'"
  by (fastforce simp add: quiet_def window_sorted_def)

lemma window_sorted_waitForRateLimit:
  assumes "window_sorted s"
  shows "window_sorted (waitForRateLimit s)"
proof -
  let ?s' = "waitForRateLimit s"
  let ?k = "butlast (requestTimestamps ?s')"
  have srt: "sorted (requestTimestamps s)" and le: "\<forall>t \<in> set (requestTimestamps s). t \<le> clock s"
    using assms by (simp_all add: window_sorted_def)
  have eq: "requestTimestamps ?s' = ?k @ [clock ?s']" by (rule waitForRateLimit_window(1))
  have sub: "set ?k \<subseteq> set (requestTimestamps s)" by (rule waitForRateLimit_window(2))
  have sk: "sorted ?k" using srt by (rule waitForRateLimit_window(3))
  have ck: "clock s \<le> clock ?s'" by (rule waitForRateLimit_clock)
  have kle: "\<forall>t \<in> set ?k. t \<le> clock ?s'" using sub le ck by fastforce
  have "sorted (?k @ [clock ?s'])" using sk kle by (simp add: sorted_append)
  moreover have "\<forall>t \<in> set (?k @ [clock ?s']). t \<le> clock ?s'" using kle by simp
  ultimately show ?thesis unfolding window_sorted_def using eq by metis
qed

lemma purged_head_least:
  assumes "window_sorted s" and "requestTimestamps (purged s) = oldest # rest"
  shows "\<forall>t \<in> set (requestTimestamps (purged s)). oldest \<le> t"
proof -
  have "sorted (requestTimestamps (purged s))"
    using assms(1) by (simp add: purged_fields window_sorted_def sorted_wrt_filter)
  with assms(2) show ?thesis by auto
qed

text \<open>
  Claim C10. The window \<open>requestTimestamps\<close> is sorted in non-decreasing order (and holds
  no instant later than the clock): this holds for a new client, every execution of
  \<open>waitForRateLimit\<close> preserves it, and so does every sequence of calls. Hence after the
  first purge the head of the window, which the wait time is computed from, is its
  minimum.
\<close>

theorem requestTimestamps_sorted:
  fixes s :: "'a client"
  shows
   "window_sorted (new_client limit t0 ds tok api :: 'a client) \<and>
    (window_sorted s \<longrightarrow> window_sorted (waitForRateLimit s)) \<and>
    (window_sorted s \<longrightarrow> window_sorted (run cs s)) \<and>
    (window_sorted s \<and> requestTimestamps (purged s) = oldest # rest \<longrightarrow>
       (\<forall>t \<in> set (requestTimestamps (purged s)). oldest \<le> t))"
proof -
  have 1: "window_sorted (new_client limit t0 ds tok api :: 'a client)"
    by (simp add: window_sorted_def new_client_def)
  have 3: "window_sorted (run cs s)" if "window_sorted s"
    using run_preserves [of window_sorted, OF window_sorted_quiet window_sorted_waitForRateLimit that]
    by simp
  show ?thesis
    using 1 3 window_sorted_waitForRateLimit [of s] purged_head_least [of s oldest rest]
    by blast
qed

theorem requestTimestamps_sorted_witness:
  "requestTimestamps queue_client = [4, 9] \<and>
   requestTimestamps (purged queue_client) = [4, 9] \<and>
   window_sorted (waitForRateLimit queue_client) \<and>
   window_sorted (run burst queue_client) \<and>
   list_all (\<lambda>t. 4 \<le> t) (requestTimestamps (purged queue_client))"
proof -
  have q: "queue_client = run [Admit, Admit] (new_client (Some 8) 0 [3, 1, 4, 1, 5] [] [])"
    by (simp add: queue_client_def fresh_def)
  have a: "window_sorted queue_client"
    unfolding q
    using requestTimestamps_sorted [of "Some 8" 0 "[3, 1, 4, 1, 5]" "[]" "[]"
        "new_client (Some 8) 0 [3, 1, 4, 1, 5] [] []" "[Admit, Admit]"]
    by blast
  have e: "requestTimestamps queue_client = [4, 9]"
    "requestTimestamps (purged queue_client) = 4 # [9]"
    by code_simp+
  show ?thesis
    using requestTimestamps_sorted [of "Some 8" 0 "[]" "[]" "[]" queue_client burst 4 "[9]"] a e
    by (simp add: list_all_iff)
qed

section \<open>The order of the pipeline steps\<close>

lemma recorded_refl: "recorded s s"
  by (simp add: recorded_def)

lemma recorded_trans:
  assumes "recorded s s'" and "recorded s' s''"
  shows "recorded s s''"
proof -
  from assms(1) obtain e1 where 1: "clock s \<le> clock s'" "trace s' = trace s @ e1"
    "\<And>b. clock s' - 1000 \<le> b \<Longrightarrow> filter (\<lambda>t. b < t) (requestTimestamps s')
              = filter (\<lambda>t. b < t) (requestTimestamps s @ admissions e1)"
    unfolding recorded_def by blast
  from assms(2) obtain e2 where 2: "clock s' \<le> clock s''" "trace s'' = trace s' @ e2"
    "\<And>b. clock s'' - 1000 \<le> b \<Longrightarrow> filter (\<lambda>t. b < t) (requestTimestamps s'')
              = filter (\<lambda>t. b < t) (requestTimestamps s' @ admissions e2)"
    unfolding recorded_def by blast
  have "filter (\<lambda>t. b < t) (requestTimestamps s'')
        = filter (\<lambda>t. b < t) (requestTimestamps s @ admissions (e1 @ e2))"
    if "clock s'' - 1000 \<le> b" for b
  proof -
    have "clock s' - 1000 \<le> b" using that 2(1) by simp
    from 1(3) [OF this] 2(3) [OF that] show ?thesis by simp
  qed
  moreover have "trace s'' = trace s @ (e1 @ e2)" by (simp add: 1(2) 2(2))
  moreover have "clock s \<le> clock s''" using 1(1) 2(1) by simp
  ultimately show ?thesis unfolding recorded_def by blast
qed

lemma quiet_recorded: "quiet s s' \<Longrightarrow> recorded s s'"
  unfolding quiet_def recorded_def by auto

lemma gate_recent:
  assumes "clock (gate s) - 1000 \<le> b"
  shows "filter (\<lambda>t. b < t) (requestTimestamps (gate s)) = filter (\<lambda>t. b < t) (requestTimestamps s)"
proof (cases "rateLimitPerSecond s \<le> int (length (requestTimestamps s))")
  case False
  then show ?thesis by (simp add: gate_def)
next
  case True
  define s2a where "s2a = (case requestTimestamps s of
                      [] \<Rightarrow> s
                    | oldestTimestamp # _ \<Rightarrow>
                        (if oldestTimestamp - (clock s - 1000) + 10 > 0
                         then await_void (sleep (oldestTimestamp - (clock s - 1000) + 10) s)
                         else s))"
  have ts: "requestTimestamps s2a = requestTimestamps s"
    by (simp add: s2a_def Let_def await_void_def sleep_def log_def split: list.splits)
  let ?ff = "filter_fresh (requestTimestamps s) s2a"
  have g: "gate s = (snd ?ff)\<lparr>requestTimestamps := fst ?ff\<rparr>"
    using True ts [unfolded s2a_def] unfolding gate_def Let_def split_beta s2a_def by simp
  have "clock (snd ?ff) - 1000 \<le> b" using assms by (simp add: g)
  from filter_fresh_recent [OF this] show ?thesis by (simp add: g)
qed

lemma waitForRateLimit_recorded: "recorded s (waitForRateLimit s)"
proof -
  let ?s' = "waitForRateLimit s"
  obtain ev1 where tr: "trace ?s' = trace s @ ev1 @ [Admitted (clock ?s')]"
    and si: "list_all is_wait_event ev1"
    using waitForRateLimit_trace [of s] by blast
  have adm: "admissions (ev1 @ [Admitted (clock ?s')]) = [clock ?s']"
    using wait_events_silent(1) [OF si] by simp
  have ck: "clock ?s' = fst (Date_now (gate (purged s)))"
    by (simp add: waitForRateLimit_stages push_fields)
  have c1: "clock (gate (purged s)) \<le> clock ?s'" unfolding ck by (rule Date_now_mono)
  have c2: "clock (purged s) \<le> clock (gate (purged s))" by (rule gate_clock)
  have win: "filter (\<lambda>t. b < t) (requestTimestamps ?s')
             = filter (\<lambda>t. b < t) (requestTimestamps s @ [clock ?s'])"
    if "clock ?s' - 1000 \<le> b" for b
  proof -
    have 1: "clock (gate (purged s)) - 1000 \<le> b" using that c1 by simp
    have 2: "fst (Date_now s) - 1000 \<le> b" using 1 c2 by (simp add: purged_fields)
    have "filter (\<lambda>t. b < t) (requestTimestamps (gate (purged s)))
          = filter (\<lambda>t. b < t) (requestTimestamps (purged s))"
      by (rule gate_recent [OF 1])
    also have "\<dots> = filter (\<lambda>t. b < t) (requestTimestamps s)"
      using 2 by (simp add: purged_fields)
    finally show ?thesis
      by (simp add: waitForRateLimit_stages push_fields)
  qed
  have "trace ?s' = trace s @ (ev1 @ [Admitted (clock ?s')])" using tr by simp
  with win adm waitForRateLimit_clock [of s] show ?thesis
    unfolding recorded_def by metis
qed

lemma admission_states_unfold:
  "admission_states m p b retries s =
     waitForRateLimit s #
     (case attempt m p b s of
        (Inl e, s3) \<Rightarrow> []
      | (Inr response, s3) \<Rightarrow>
          if status response = 429 \<and> retries > 0
          then admission_states m p b (retries - 1) (backoff response s3)
          else [])"
  by (rule admission_states.simps)

lemma quiet_trace: "quiet s s' \<Longrightarrow> \<exists>evs. trace s' = trace s @ evs \<and> admissions evs = []"
  by (simp add: quiet_def)

lemma request_admissions:
  "\<exists>evs. trace (snd (request m p b retries s)) = trace s @ evs \<and>
         admissions evs = map clock (admission_states m p b retries s) \<and>
         (\<forall>g \<in> set (admission_states m p b retries s).
            (\<exists>a. g = waitForRateLimit a) \<and>
            (\<exists>pre post. trace g = pre @ [Admitted (clock g)] \<and>
                        trace (snd (request m p b retries s)) = trace g @ post))"
proof (induction retries s rule: request_induct [where m = m and p = p and b = b])
  case (step retries s)
  let ?g0 = "waitForRateLimit s"
  obtain ev1 where tr0: "trace ?g0 = trace s @ ev1 @ [Admitted (clock ?g0)]"
    and si: "list_all is_wait_event ev1"
    using waitForRateLimit_trace [of s] by blast
  have a1: "admissions ev1 = []" by (rule wait_events_silent(1) [OF si])
  have qa: "quiet ?g0 (admitted s)" unfolding admitted_def by (rule quiet_await_void)
  obtain r0 s3 where att: "attempt m p b s = (r0, s3)" by (cases "attempt m p b s")
  have q3: "quiet ?g0 s3"
    using quiet_trans [OF qa attempt_quiet [of s m p b]] att by simp
  have finish: "?case"
    if eq: "request m p b retries s = (r, x)" and st: "admission_states m p b retries s = [?g0]"
      and q: "quiet ?g0 x" for r x
  proof -
    obtain e2 where e2: "trace x = trace ?g0 @ e2" "admissions e2 = []"
      using quiet_trace [OF q] by blast
    let ?evs = "ev1 @ [Admitted (clock ?g0)] @ e2"
    have "trace (snd (request m p b retries s)) = trace s @ ?evs"
      by (simp add: eq e2(1) tr0)
    moreover have "admissions ?evs = map clock (admission_states m p b retries s)"
      by (simp add: st a1 e2(2))
    moreover have "trace ?g0 = (trace s @ ev1) @ [Admitted (clock ?g0)]" by (simp add: tr0)
    moreover have "trace (snd (request m p b retries s)) = trace ?g0 @ e2"
      by (simp add: eq e2(1))
    ultimately show ?thesis unfolding st by auto
  qed
  show ?case
  proof (cases r0)
    case (Inl e)
    have eq: "request m p b retries s = (Inl e, s3)"
      using att Inl by (subst request_unfold) simp
    have st: "admission_states m p b retries s = [?g0]"
      using att Inl by (subst admission_states_unfold) simp
    show ?thesis by (rule finish [OF eq st q3])
  next
    case r: (Inr response)
    show ?thesis
    proof (cases "status response = 429 \<and> retries > 0")
      case False
      have eq: "request m p b retries s = (fst (settle response s3), snd (settle response s3))"
        using att r False by (subst request_unfold) auto
      have st: "admission_states m p b retries s = [?g0]"
        using att r False by (subst admission_states_unfold) auto
      show ?thesis by (rule finish [OF eq st quiet_trans [OF q3 quiet_settle]])
    next
      case True
      let ?s4 = "backoff response s3"
      let ?rest = "admission_states m p b (retries - 1) ?s4"
      let ?s' = "snd (request m p b (retries - 1) ?s4)"
      have eq: "request m p b retries s = request m p b (retries - 1) ?s4"
        using att r True by (subst request_unfold) simp
      have st: "admission_states m p b retries s = ?g0 # ?rest"
        using att r True by (subst admission_states_unfold) simp
      obtain e2 where e2: "trace ?s4 = trace ?g0 @ e2" "admissions e2 = []"
        using quiet_trace [OF quiet_trans [OF q3 quiet_backoff]] by blast
      from step [of response s3] att r True
      obtain e3 where ih: "trace ?s' = trace ?s4 @ e3"
        "admissions e3 = map clock ?rest"
        "\<forall>g \<in> set ?rest. (\<exists>a. g = waitForRateLimit a) \<and>
            (\<exists>pre post. trace g = pre @ [Admitted (clock g)] \<and> trace ?s' = trace g @ post)"
        by auto
      let ?evs = "ev1 @ [Admitted (clock ?g0)] @ e2 @ e3"
      have "trace (snd (request m p b retries s)) = trace s @ ?evs"
        by (simp add: eq ih(1) e2(1) tr0)
      moreover have "admissions ?evs = map clock (admission_states m p b retries s)"
        by (simp add: st a1 e2(2) ih(2))
      moreover have "trace ?g0 = (trace s @ ev1) @ [Admitted (clock ?g0)]" by (simp add: tr0)
      moreover have "trace (snd (request m p b retries s)) = trace ?g0 @ (e2 @ e3)"
        by (simp add: eq ih(1) e2(1))
      ultimately show ?thesis unfolding st eq using ih(3) unfolding eq by auto
    qed
  qed
qed

lemma pipeline_shape_counts:
  "pipeline_shape m p b es \<Longrightarrow> api_fetches es \<le> length (admissions es)"
  by (induction m p b es rule: pipeline_shape.induct) (simp_all add: api_fetches_def)

lemma admissions_pipeline_events [simp]: "admissions (pipeline_events evs) = admissions evs"
  unfolding pipeline_events_def
  by (induction evs rule: admissions.induct) simp_all

lemma api_fetches_pipeline_events [simp]: "api_fetches (pipeline_events evs) = api_fetches evs"
proof (induction evs)
  case Nil
  show ?case by (simp add: pipeline_events_def api_fetches_def)
next
  case (Cons e evs)
  then show ?case by (cases e) (simp_all add: pipeline_events_def api_fetches_def)
qed

lemma request_recorded: "recorded s (snd (request m p b retries s))"
proof -
  have q: "recorded s y" if "quiet x y" "recorded s x" for x y :: "'a client"
    using recorded_trans [OF that(2) quiet_recorded [OF that(1)]] .
  have w: "recorded s (waitForRateLimit x)" if "recorded s x" for x :: "'a client"
    using recorded_trans [OF that waitForRateLimit_recorded] .
  show ?thesis
    by (rule request_preserves [of "recorded s", OF q w recorded_refl])
qed

text \<open>
  Claim C7. In every call of \<open>request\<close>, each HTTP attempt, the retries included, first
  passes through the rate governor, then obtains its token, then sends, in that order:
  \<^item> the pipeline steps of the call are triples admission, token, send (the last attempt
    may stop after its admission, when no token is obtained);
  \<^item> the admissions of the call are, one for one and in order, those of the states in
    which its attempts leave \<open>waitForRateLimit\<close>, so there are at least as many as sends;
  \<^item> each of these states is the result of \<open>waitForRateLimit\<close>, lies on the run of the
    call right after its admission was logged, and has that one timestamp as the newest
    entry of the window \<open>requestTimestamps\<close>, the other entries coming from the window
    before;
  \<^item> at the end of the call the window holds every admission of the call that is not
    older than a second, after what it held before;
  \<^item> the retries are governed like any call: when the quota is at least 1 and the
    invariant of the governor holds before the call, no window of 1000 ms holds more
    admissions than the quota after it.
\<close>

theorem request_pipeline_order:
  fixes s :: "'a client"
  shows
   "\<exists>evs. trace (snd (request m p b retries s)) = trace s @ evs \<and>
      pipeline_shape m p b (pipeline_events evs) \<and>
      admissions evs = map clock (admission_states m p b retries s) \<and>
      api_fetches evs \<le> length (admission_states m p b retries s) \<and>
      (\<forall>g \<in> set (admission_states m p b retries s).
         (\<exists>a. g = waitForRateLimit a \<and>
              set (butlast (requestTimestamps g)) \<subseteq> set (requestTimestamps a)) \<and>
         requestTimestamps g \<noteq> [] \<and> last (requestTimestamps g) = clock g \<and>
         (\<exists>pre post. trace g = pre @ [Admitted (clock g)] \<and>
                     trace (snd (request m p b retries s)) = trace g @ post)) \<and>
      (\<forall>w. clock (snd (request m p b retries s)) - 1000 \<le> w \<longrightarrow>
         filter (\<lambda>t. w < t) (requestTimestamps (snd (request m p b retries s)))
           = filter (\<lambda>t. w < t) (requestTimestamps s @ admissions evs)) \<and>
      (gov_inv s \<and> 1 \<le> rateLimitPerSecond s \<longrightarrow>
         (\<forall>lo. window_count lo (admissions (trace (snd (request m p b retries s))))
                \<le> rateLimitPerSecond s))"
proof -
  let ?s' = "snd (request m p b retries s)"
  let ?gs = "admission_states m p b retries s"
  obtain evs where sh: "trace ?s' = trace s @ evs" "pipeline_shape m p b (pipeline_events evs)"
    using request_trace [of m p b retries s] by blast
  obtain evs1 where ad: "trace ?s' = trace s @ evs1" "admissions evs1 = map clock ?gs"
    "\<forall>g \<in> set ?gs. (\<exists>a. g = waitForRateLimit a) \<and>
        (\<exists>pre post. trace g = pre @ [Admitted (clock g)] \<and> trace ?s' = trace g @ post)"
    using request_admissions [of m p b retries s] by blast
  obtain evs2 where re: "trace ?s' = trace s @ evs2"
    "\<And>w. clock ?s' - 1000 \<le> w \<Longrightarrow>
       filter (\<lambda>t. w < t) (requestTimestamps ?s') = filter (\<lambda>t. w < t) (requestTimestamps s @ admissions evs2)"
    using request_recorded [of s m p b retries] unfolding recorded_def by blast
  have e1: "evs1 = evs" and e2: "evs2 = evs" using sh(1) ad(1) re(1) by simp_all
  have cnt: "api_fetches evs \<le> length ?gs"
  proof -
    have "api_fetches (pipeline_events evs) \<le> length (admissions (pipeline_events evs))"
      by (rule pipeline_shape_counts [OF sh(2)])
    then have "api_fetches evs \<le> length (admissions evs)" by simp
    then show ?thesis using ad(2) e1 by simp
  qed
  have each: "(\<exists>a. g = waitForRateLimit a \<and>
              set (butlast (requestTimestamps g)) \<subseteq> set (requestTimestamps a)) \<and>
         requestTimestamps g \<noteq> [] \<and> last (requestTimestamps g) = clock g \<and>
         (\<exists>pre post. trace g = pre @ [Admitted (clock g)] \<and> trace ?s' = trace g @ post)"
    if "g \<in> set ?gs" for g
  proof -
    from ad(3) that obtain a where a: "g = waitForRateLimit a"
      and tr: "\<exists>pre post. trace g = pre @ [Admitted (clock g)] \<and> trace ?s' = trace g @ post"
      by blast
    have w: "requestTimestamps g = butlast (requestTimestamps g) @ [clock g]"
      unfolding a by (rule waitForRateLimit_window(1))
    have "set (butlast (requestTimestamps g)) \<subseteq> set (requestTimestamps a)"
      unfolding a by (rule waitForRateLimit_window(2))
    moreover have "requestTimestamps g \<noteq> []" using w by (metis snoc_eq_iff_butlast)
    moreover have "last (requestTimestamps g) = clock g" using w by (metis last_snoc)
    ultimately show ?thesis using a tr by blast
  qed
  have quota: "\<forall>lo. window_count lo (admissions (trace ?s')) \<le> rateLimitPerSecond s"
    if "gov_inv s \<and> 1 \<le> rateLimitPerSecond s"
  proof -
    from that request_inv [of s m p b retries]
    have "gov_inv ?s'" and "rateLimitPerSecond ?s' = rateLimitPerSecond s" by simp_all
    then show ?thesis by (auto simp add: gov_inv_def)
  qed
  show ?thesis
    using sh ad(2) cnt each re(2) quota unfolding e1 e2 by blast
qed

theorem request_pipeline_order_witness:
  "pipeline_shape ''GET'' ''/api/v2/clients'' None
     (pipeline_events (trace (snd (request ''GET'' ''/api/v2/clients'' None 3 retry_client)))) \<and>
   pipeline_events (trace (snd (request ''GET'' ''/api/v2/clients'' None 3 retry_client)))
     = [Admitted 0, Authenticated ''tok'', ApiFetch ''GET'' ''/api/v2/clients'' None ''tok'',
        Admitted 2000, Authenticated ''tok'', ApiFetch ''GET'' ''/api/v2/clients'' None ''tok''] \<and>
   admissions (trace (snd (request ''GET'' ''/api/v2/clients'' None 3 retry_client)))
     = map clock (admission_states ''GET'' ''/api/v2/clients'' None 3 retry_client) \<and>
   map requestTimestamps (admission_states ''GET'' ''/api/v2/clients'' None 3 retry_client)
     = [[0], [2000]] \<and>
   map requestTimestamps (admission_states ''GET'' ''/api/v2/clients'' None 3 negative_retry_client)
     = [[0], [0, 0]] \<and>
   requestTimestamps (snd (request ''GET'' ''/api/v2/clients'' None 3 negative_retry_client)) = [0, 0] \<and>
   window_count (- 1) (admissions (trace (snd (request ''GET'' ''/api/v2/clients'' None 3 retry_client))))
     \<le> 8"
proof -
  let ?A = "snd (request ''GET'' ''/api/v2/clients'' None 3 retry_client)"
  have t: "trace retry_client = []" by code_simp
  have h: "0 \<le> rateLimitPerSecond retry_client" "requestTimestamps retry_client = []"
    "admissions (trace retry_client) = []" "1 \<le> rateLimitPerSecond retry_client"
    "rateLimitPerSecond retry_client = 8"
    by code_simp+
  have g: "gov_inv retry_client" by (rule fresh_gov_inv [OF h(1) h(2) h(3)])
  have e: "pipeline_events (trace ?A)
     = [Admitted 0, Authenticated ''tok'', ApiFetch ''GET'' ''/api/v2/clients'' None ''tok'',
        Admitted 2000, Authenticated ''tok'', ApiFetch ''GET'' ''/api/v2/clients'' None ''tok'']"
    "map requestTimestamps (admission_states ''GET'' ''/api/v2/clients'' None 3 retry_client)
     = [[0], [2000]]"
    "map requestTimestamps (admission_states ''GET'' ''/api/v2/clients'' None 3 negative_retry_client)
     = [[0], [0, 0]]"
    "requestTimestamps (snd (request ''GET'' ''/api/v2/clients'' None 3 negative_retry_client)) = [0, 0]"
    by code_simp+
  from request_pipeline_order [of "''GET''" "''/api/v2/clients''" None 3 retry_client]
  obtain evs where f: "trace ?A = trace retry_client @ evs"
    "pipeline_shape ''GET'' ''/api/v2/clients'' None (pipeline_events evs)"
    "admissions evs = map clock (admission_states ''GET'' ''/api/v2/clients'' None 3 retry_client)"
    "gov_inv retry_client \<and> 1 \<le> rateLimitPerSecond retry_client \<longrightarrow>
       (\<forall>lo. window_count lo (admissions (trace ?A)) \<le> rateLimitPerSecond retry_client)"
    by blast
  from f(1) t have ev: "evs = trace ?A" by simp
  from f(4) g h(4) h(5) have q: "window_count (- 1) (admissions (trace ?A)) \<le> 8" by auto
  show ?thesis using f(2) f(3) e q unfolding ev by blast
qed

end
